theory Spec2Isabelle
  imports Complex_Main "HOL-Library.Log_Nat" "HOL-Library.Multiset"
begin

section \<open>Colours and the distance metric\<close>

text \<open>
  A colour is a Python tuple of three integers (red, green, blue). Pixels read from an
  RGB image and palette entries parsed from hex strings have channels in 0..255; the
  arithmetic of \<open>color_distance_sq\<close> is Python integer arithmetic and is modelled on
  unbounded integers.
\<close>

type_synonym color = "int \<times> int \<times> int"

type_synonym coord = "nat \<times> nat"

definition color_distance_sq :: "color \<Rightarrow> color \<Rightarrow> int" where
  "color_distance_sq rgb1 rgb2 =
     (case rgb1 of (r1, g1, b1) \<Rightarrow>
      case rgb2 of (r2, g2, b2) \<Rightarrow>
        (r1 - r2) ^ 2 + (g1 - g2) ^ 2 + (b1 - b2) ^ 2)"

definition valid_color :: "color \<Rightarrow> bool" where
  "valid_color c =
     (case c of (r, g, b) \<Rightarrow> 0 \<le> r \<and> r \<le> 255 \<and> 0 \<le> g \<and> g \<le> 255 \<and> 0 \<le> b \<and> b \<le> 255)"


section \<open>Nearest palette entry\<close>

text \<open>
  The linear scan that both modes of \<open>analyze_image_worker\<close> perform on a cache miss:
  \<open>best\<close> starts as the first candidate and is replaced only by a strictly smaller
  distance. The scan is entered only with a non-empty candidate list.
\<close>

fun scan_nearest :: "color \<Rightarrow> color list \<Rightarrow> color \<Rightarrow> int \<Rightarrow> color" where
  "scan_nearest pixel_color [] best best_dist = best"
| "scan_nearest pixel_color (color # rest) best best_dist =
     (let d = color_distance_sq pixel_color color
      in if d < best_dist then scan_nearest pixel_color rest color d
         else scan_nearest pixel_color rest best best_dist)"

fun find_nearest :: "color \<Rightarrow> color list \<Rightarrow> color" where
  "find_nearest pixel_color (c0 # rest) =
     scan_nearest pixel_color rest c0 (color_distance_sq pixel_color c0)"

text \<open>
  The specification's wording of the result of the scan: the first candidate, in list
  order, that achieves the minimum squared distance to \<open>c\<close>.
\<close>

definition first_minimum :: "color \<Rightarrow> color list \<Rightarrow> color \<Rightarrow> bool" where
  "first_minimum c cols q =
     (\<exists>i < length cols. cols ! i = q
        \<and> (\<forall>j < length cols. color_distance_sq c q \<le> color_distance_sq c (cols ! j))
        \<and> (\<forall>j < i. color_distance_sq c q < color_distance_sq c (cols ! j)))"

section \<open>Double-precision arithmetic of the threshold and the progress value\<close>

text \<open>
  Python floats are IEEE-754 binary64 numbers; every operation returns the exact result
  rounded to the nearest double, ties to even. \<open>fl\<close> is that rounding on the reals, with
  a 53-bit significand. The exponent range is not modelled: the values that arise (between
  \<open>2\<^sup>-\<^sup>6\<^sup>0\<close> and \<open>2\<^sup>6\<^sup>0\<close>) are far inside the normal range. \<open>fl_sqrt n\<close> is \<open>math.sqrt\<close>
  of the integer \<open>n\<close>, the correctly rounded square root.
\<close>

definition round_half_even :: "real \<Rightarrow> int" where
  "round_half_even x =
     (let f = \<lfloor>x\<rfloor>; r = x - of_int f
      in if r < 1 / 2 then f else if 1 / 2 < r then f + 1 else if even f then f else f + 1)"

text \<open>For \<open>x > 0\<close>, \<open>binexp x\<close> is the integer \<open>e\<close> with \<open>2\<^sup>e \<le> x < 2\<^sup>e\<^sup>+\<^sup>1\<close>.\<close>

definition binexp :: "real \<Rightarrow> int" where
  "binexp x = (if 1 \<le> x then bitlen \<lfloor>x\<rfloor> - 1 else - bitlen (\<lceil>1 / x\<rceil> - 1))"

definition fl :: "real \<Rightarrow> real" where
  "fl x = (if x = 0 then 0
           else let e = binexp \<bar>x\<bar> - 52
                in sgn x * of_int (round_half_even (\<bar>x\<bar> / 2 powi e)) * 2 powi e)"

fun isqrt :: "nat \<Rightarrow> nat" where
  "isqrt n = (if n < 2 then n
              else let r = 2 * isqrt (n div 4)
                   in if (r + 1) * (r + 1) \<le> n then r + 1 else r)"

declare isqrt.simps [simp del]

definition fl_sqrt :: "nat \<Rightarrow> real" where
  "fl_sqrt n = (if n = 0 then 0
                else let e = (bitlen (int n) - 1) div 2;
                         k = nat (52 - e);
                         m = (isqrt (4 * (n * 4 ^ k)) + 1) div 2
                     in of_nat m / 2 ^ k)"

text \<open>The module constant \<open>max_distance = math.sqrt(255**2 * 3)\<close>.\<close>

definition max_distance :: real where
  "max_distance = fl_sqrt (255 ^ 2 * 3)"

text \<open>
  The two assignments at the start of the worker:
  \<open>allowed_distance = (1.0 - (similarity_threshold / 100.0)) * max_distance\<close> and
  \<open>allowed_sq = allowed_distance * allowed_distance\<close>.
\<close>

definition allowed_sq_of :: "int \<Rightarrow> real" where
  "allowed_sq_of threshold =
     (let allowed_distance = fl (fl (1 - fl (of_int threshold / 100)) * max_distance)
      in fl (allowed_distance * allowed_distance))"

section \<open>Images, the object store and the state of a run\<close>

text \<open>
  An image is its size (width, height) and its pixel-access object, a function from
  \<open>(x, y)\<close> to a colour. Images are objects referred to by reference:
  \<open>heap\<close> is the store, a reference is an index into it, and \<open>copy()\<close> allocates a
  new object at the end of the store.
\<close>

record image =
  img_size :: "nat \<times> nat"
  pixels :: "coord \<Rightarrow> color"

text \<open>
  What an observer of a run can see in time order: each reading of the cancellation flag
  with the value read, and each pixel the worker goes on to process.
\<close>

datatype event = Poll bool | Pixel coord

text \<open>
  How the worker ends: it schedules \<open>analyze_done(new_image)\<close> (COMPLETED),
  \<open>analyze_canceled\<close> (CANCELED), or its exception handler reports an error (FAILED).
\<close>

datatype outcome = COMPLETED | CANCELED | FAILED

text \<open>
  The two inputs of a run that the worker does not control. \<open>is_set_at e k\<close> is the value
  that the \<open>k\<close>-th call of \<open>_cancel_event.is_set()\<close> in the run returns (counted from 0);
  the flag is set by another thread. \<open>shuffle_at e k cs\<close> is the order in which the
  \<open>k\<close>-th call of \<open>rng.shuffle\<close> leaves the list \<open>cs\<close>; \<open>random.shuffle\<close> permutes its
  argument, which is the predicate \<open>permuting\<close>.
\<close>

record env =
  is_set_at :: "nat \<Rightarrow> bool"
  shuffle_at :: "nat \<Rightarrow> coord list \<Rightarrow> coord list"

definition permuting :: "env \<Rightarrow> bool" where
  "permuting e = (\<forall>k cs. mset (shuffle_at e k cs) = mset cs)"

text \<open>
  The module-level variables and the application object's fields that the worker reads or
  writes, the worker's local variables, and four observation fields that are not in the
  source: \<open>polls\<close> and \<open>shuffles\<close> count the calls of \<open>is_set\<close> and \<open>shuffle\<close>,
  \<open>published\<close> lists the values assigned to \<open>processed_pixels\<close> in time order, and
  \<open>trace\<close> is the event log. \<open>raised\<close> records a \<open>ZeroDivisionError\<close> in the progress
  computation, which the worker's handler turns into the FAILED outcome.
\<close>

record state =
  heap :: "image list"
  original_image :: "nat option"
  pal_choice :: string
  pallettes :: "string \<Rightarrow> color list option"
  similarity_threshold :: int
  saved_colors :: "color list"
  progress :: real
  processed_pixels :: nat
  total_pixels :: nat
  new_image :: nat
  nearest_cache :: "color \<Rightarrow> color option"
  processed :: nat
  total_n :: nat
  canceled :: bool
  raised :: bool
  polls :: nat
  shuffles :: nat
  published :: "nat list"
  trace :: "event list"

definition px_get :: "state \<Rightarrow> coord \<Rightarrow> color" where
  "px_get s xy = pixels (heap s ! new_image s) xy"

definition px_set :: "state \<Rightarrow> coord \<Rightarrow> color \<Rightarrow> state" where
  "px_set s xy c =
     s\<lparr>heap := (heap s)[new_image s :=
            (heap s ! new_image s)\<lparr>pixels := (pixels (heap s ! new_image s))(xy := c)\<rparr>]\<rparr>"

definition is_set :: "env \<Rightarrow> state \<Rightarrow> bool \<times> state" where
  "is_set e s =
     (let b = is_set_at e (polls s)
      in (b, s\<lparr>polls := Suc (polls s), trace := trace s @ [Poll b]\<rparr>))"

definition shuffle :: "env \<Rightarrow> coord list \<Rightarrow> state \<Rightarrow> coord list \<times> state" where
  "shuffle e coords s = (shuffle_at e (shuffles s) coords, s\<lparr>shuffles := Suc (shuffles s)\<rparr>)"

definition set_progress :: "real \<Rightarrow> state \<Rightarrow> state" where
  "set_progress v s = s\<lparr>progress := max 0 (min 100 v)\<rparr>"

definition publish :: "nat \<Rightarrow> state \<Rightarrow> state" where
  "publish n s = s\<lparr>processed_pixels := n, published := published s @ [n]\<rparr>"

section \<open>The per-pixel steps\<close>

text \<open>
  The cache lookup with the scan on a miss; the same lines appear in both modes of the
  worker, over \<open>saved_colors\<close> in one and over the fixed palette in the other.
\<close>

definition lookup_nearest :: "color \<Rightarrow> color list \<Rightarrow> state \<Rightarrow> color \<times> state" where
  "lookup_nearest pixel_color cols s =
     (case nearest_cache s pixel_color of
        Some nearest \<Rightarrow> (nearest, s)
      | None \<Rightarrow>
          let best = find_nearest pixel_color cols
          in (best, s\<lparr>nearest_cache := (nearest_cache s)(pixel_color \<mapsto> best)\<rparr>))"

text \<open>The body of the pixel loop of the mode "Simplify Pallette", up to the counting.\<close>

definition simplify_pixel :: "real \<Rightarrow> coord \<Rightarrow> state \<Rightarrow> state" where
  "simplify_pixel allowed_sq xy s =
     (let pixel_color = px_get s xy
      in if pixel_color \<notin> set (saved_colors s) then
           if saved_colors s \<noteq> [] then
             let (nearest, s1) = lookup_nearest pixel_color (saved_colors s) s
             in if allowed_sq < real_of_int (color_distance_sq nearest pixel_color) then
                  s1\<lparr>saved_colors := saved_colors s1 @ [pixel_color],
                     nearest_cache := (nearest_cache s1)(pixel_color := None)\<rparr>
                else px_set s1 xy nearest
           else s\<lparr>saved_colors := saved_colors s @ [pixel_color]\<rparr>
         else s)"

text \<open>The body of the pixel loop of the fixed-palette mode, up to the counting.\<close>

definition map_pixel :: "color list \<Rightarrow> coord \<Rightarrow> state \<Rightarrow> state" where
  "map_pixel pallette xy s =
     (let pixel_color = px_get s xy
      in if pallette \<noteq> [] then
           let (nearest, s1) = lookup_nearest pixel_color pallette s
           in px_set s1 xy nearest
         else s)"

text \<open>
  \<open>processed += 1\<close>, and every 5000 pixels the progress percentage
  \<open>(processed / total) * 100.0\<close> and the processed count are published.
\<close>

definition count_pixel :: "state \<Rightarrow> state" where
  "count_pixel s =
     (let s1 = s\<lparr>processed := processed s + 1\<rparr>
      in if processed s1 mod 5000 = 0 then
           if total_n s1 = 0 then s1\<lparr>raised := True\<rparr>
           else publish (processed s1)
                  (set_progress (fl (fl (real (processed s1) / real (total_n s1)) * 100)) s1)
         else s1)"

section \<open>The loops of the two modes\<close>

definition tile :: nat where
  "tile = 300"

text \<open>Python's \<open>range(start, stop, step)\<close> for a positive step.\<close>

function range_step :: "nat \<Rightarrow> nat \<Rightarrow> nat \<Rightarrow> nat list" where
  "range_step start stop step =
     (if start < stop \<and> 0 < step then start # range_step (start + step) stop step else [])"
  by pat_completeness auto
termination
  by (relation "measure (\<lambda>(start, stop, step). stop - start)") auto

declare range_step.simps [simp del]

text \<open>\<open>[(x, y) for y in range(y0, y1) for x in range(x0, x1)]\<close>\<close>

definition tile_coords :: "nat \<Rightarrow> nat \<Rightarrow> nat \<Rightarrow> nat \<Rightarrow> coord list" where
  "tile_coords x0 x1 y0 y1 = concat (map (\<lambda>y. map (\<lambda>x. (x, y)) [x0..<x1]) [y0..<y1])"

fun simplify_pixels :: "env \<Rightarrow> real \<Rightarrow> coord list \<Rightarrow> state \<Rightarrow> state" where
  "simplify_pixels e allowed_sq [] s = s"
| "simplify_pixels e allowed_sq (xy # rest) s =
     (let (b, s1) = is_set e s
      in if b then s1\<lparr>canceled := True\<rparr>
         else let s2 = count_pixel
                         (simplify_pixel allowed_sq xy (s1\<lparr>trace := trace s1 @ [Pixel xy]\<rparr>))
              in if raised s2 then s2 else simplify_pixels e allowed_sq rest s2)"

fun simplify_tile_cols ::
  "env \<Rightarrow> real \<Rightarrow> nat \<Rightarrow> nat \<Rightarrow> nat \<Rightarrow> nat list \<Rightarrow> state \<Rightarrow> state" where
  "simplify_tile_cols e allowed_sq width y0 y1 [] s = s"
| "simplify_tile_cols e allowed_sq width y0 y1 (x0 # rest) s =
     (let (b, s1) = is_set e s
      in if b then s1\<lparr>canceled := True\<rparr>
         else let x1 = min (x0 + tile) width;
                  (coords, s2) = shuffle e (tile_coords x0 x1 y0 y1) s1;
                  s3 = simplify_pixels e allowed_sq coords s2
              in if canceled s3 \<or> raised s3 then s3
                 else simplify_tile_cols e allowed_sq width y0 y1 rest s3)"

fun simplify_tile_rows ::
  "env \<Rightarrow> real \<Rightarrow> nat \<Rightarrow> nat \<Rightarrow> nat list \<Rightarrow> state \<Rightarrow> state" where
  "simplify_tile_rows e allowed_sq width height [] s = s"
| "simplify_tile_rows e allowed_sq width height (y0 # rest) s =
     (let (b, s1) = is_set e s
      in if b then s1\<lparr>canceled := True\<rparr>
         else let y1 = min (y0 + tile) height;
                  s2 = simplify_tile_cols e allowed_sq width y0 y1 (range_step 0 width tile) s1
              in if canceled s2 \<or> raised s2 then s2
                 else simplify_tile_rows e allowed_sq width height rest s2)"

fun fixed_row :: "env \<Rightarrow> color list \<Rightarrow> nat \<Rightarrow> nat list \<Rightarrow> state \<Rightarrow> state" where
  "fixed_row e pallette y [] s = s"
| "fixed_row e pallette y (x # rest) s =
     (let (b, s1) = is_set e s
      in if b then s1\<lparr>canceled := True\<rparr>
         else let s2 = count_pixel
                         (map_pixel pallette (x, y) (s1\<lparr>trace := trace s1 @ [Pixel (x, y)]\<rparr>))
              in if raised s2 then s2 else fixed_row e pallette y rest s2)"

fun fixed_rows :: "env \<Rightarrow> color list \<Rightarrow> nat \<Rightarrow> nat list \<Rightarrow> state \<Rightarrow> state" where
  "fixed_rows e pallette width [] s = s"
| "fixed_rows e pallette width (y # rest) s =
     (let (b, s1) = is_set e s
      in if b then s1\<lparr>canceled := True\<rparr>
         else let s2 = fixed_row e pallette y [0..<width] s1
              in if canceled s2 \<or> raised s2 then s2
                 else fixed_rows e pallette width rest s2)"

section \<open>The worker\<close>

text \<open>
  The state after the set-up lines of \<open>analyze_image_worker\<close>: the image referred to by
  \<open>a\<close> is copied, the palette under discovery is cleared, progress and the counters are
  reset, and the cache is empty.
\<close>

definition worker_init :: "nat \<Rightarrow> state \<Rightarrow> state" where
  "worker_init a s =
     (let s1 = s\<lparr>heap := heap s @ [heap s ! a], new_image := length (heap s)\<rparr>;
          (width, height) = img_size (heap s ! a);
          s2 = set_progress 0 (s1\<lparr>saved_colors := []\<rparr>);
          s3 = s2\<lparr>total_pixels := width * height, processed_pixels := 0, published := [0]\<rparr>
      in s3\<lparr>nearest_cache := Map.empty, canceled := False, raised := False,
            polls := 0, shuffles := 0, trace := []\<rparr>)"

definition simplify_mode :: "env \<Rightarrow> nat \<Rightarrow> nat \<Rightarrow> state \<Rightarrow> state" where
  "simplify_mode e width height s =
     simplify_tile_rows e (allowed_sq_of (similarity_threshold s)) width height
       (range_step 0 height tile) (s\<lparr>total_n := width * height, processed := 0\<rparr>)"

definition fixed_mode :: "env \<Rightarrow> nat \<Rightarrow> nat \<Rightarrow> state \<Rightarrow> state" where
  "fixed_mode e width height s =
     (let pallette = (case pallettes s (pal_choice s) of None \<Rightarrow> [] | Some p \<Rightarrow> p)
      in fixed_rows e pallette width [0..<height]
           (s\<lparr>total_n := (if pallette \<noteq> [] then width * height else 1), processed := 0\<rparr>))"

text \<open>
  The part of the worker between the set-up and the final report: the loops of the
  selected mode, run on the copy of the image referred to by \<open>a\<close>.
\<close>

definition run_mode :: "env \<Rightarrow> nat \<Rightarrow> state \<Rightarrow> state" where
  "run_mode e a s =
     (let s1 = worker_init a s;
          (width, height) = img_size (heap s ! a)
      in if pal_choice s1 = ''Simplify Pallette''
         then simplify_mode e width height s1
         else fixed_mode e width height s1)"

text \<open>
  The worker raises \<open>RuntimeError\<close> when no image is loaded; its handler catches every
  exception and reports the failure. After the loops it reports the cancellation, or
  publishes full progress and hands the new image over.
\<close>

definition analyze_image_worker :: "env \<Rightarrow> state \<Rightarrow> outcome \<times> state" where
  "analyze_image_worker e s =
     (case original_image s of
        None \<Rightarrow> (FAILED, s)
      | Some a \<Rightarrow>
          let s2 = run_mode e a s
          in if raised s2 then (FAILED, s2)
             else if canceled s2 then (CANCELED, s2)
             else (COMPLETED, publish (total_pixels s2) (set_progress 100 s2)))"

section \<open>Example inputs\<close>

text \<open>
  The state of the application after an image has been opened and before a run is
  started: the image is the only object in the store, nothing has been discovered and
  nothing published.
\<close>

definition idle_state ::
  "image \<Rightarrow> string \<Rightarrow> (string \<Rightarrow> color list option) \<Rightarrow> int \<Rightarrow> state" where
  "idle_state img choice pals threshold =
     \<lparr>heap = [img], original_image = Some 0, pal_choice = choice, pallettes = pals,
      similarity_threshold = threshold, saved_colors = [], progress = 0,
      processed_pixels = 0, total_pixels = 0, new_image = 0, nearest_cache = Map.empty,
      processed = 0, total_n = 0, canceled = False, raised = False, polls = 0,
      shuffles = 0, published = [], trace = []\<rparr>"

text \<open>A run that is never canceled and whose shuffles leave every list as it is.\<close>

definition quiet_env :: env where
  "quiet_env = \<lparr>is_set_at = (\<lambda>k. False), shuffle_at = (\<lambda>k cs. cs)\<rparr>"

text \<open>A run in which the flag is seen set from the \<open>t\<close>-th reading on.\<close>

definition cancel_env :: "nat \<Rightarrow> env" where
  "cancel_env t = \<lparr>is_set_at = (\<lambda>k. t \<le> k), shuffle_at = (\<lambda>k cs. cs)\<rparr>"

text \<open>The two-pixel image of scenarios B and C, one row of (0,0,0) and (1,1,1).\<close>

definition two_pixels :: image where
  "two_pixels = \<lparr>img_size = (2, 1), pixels = (\<lambda>xy. if xy = (0, 0) then (0, 0, 0) else (1, 1, 1))\<rparr>"

text \<open>The one-pixel image of scenario D and its palette.\<close>

definition one_pixel :: image where
  "one_pixel = \<lparr>img_size = (1, 1), pixels = (\<lambda>xy. (10, 10, 10))\<rparr>"

definition black_white :: "string \<Rightarrow> color list option" where
  "black_white = (\<lambda>name. if name = ''bw'' then Some [(0, 0, 0), (255, 255, 255)] else None)"

section \<open>States reached during a run\<close>

text \<open>
  The actions the loops of either mode perform on a state that is neither canceled nor
  failed, with \<open>step\<close> the per-pixel step of the mode and \<open>C\<close> the coordinates it may
  visit: a reading of the flag that finds it clear, a reading that finds it set followed
  by the assignment \<open>canceled = True\<close>, a shuffle, and a reading that finds the flag
  clear followed by the processing and counting of one pixel. \<open>reaches e step C s t\<close>
  holds when \<open>t\<close> is obtained from \<open>s\<close> by a sequence of these actions.
\<close>

inductive reaches ::
  "env \<Rightarrow> (coord \<Rightarrow> state \<Rightarrow> state) \<Rightarrow> coord set \<Rightarrow> state \<Rightarrow> state \<Rightarrow> bool"
  for e :: env and step :: "coord \<Rightarrow> state \<Rightarrow> state" and C :: "coord set" and s :: state
where
  start: "reaches e step C s s"
| poll: "reaches e step C s t \<Longrightarrow> \<not> canceled t \<Longrightarrow> \<not> raised t
         \<Longrightarrow> \<not> is_set_at e (polls t)
         \<Longrightarrow> reaches e step C s (snd (is_set e t))"
| cancel: "reaches e step C s t \<Longrightarrow> \<not> canceled t \<Longrightarrow> \<not> raised t
         \<Longrightarrow> is_set_at e (polls t)
         \<Longrightarrow> reaches e step C s ((snd (is_set e t))\<lparr>canceled := True\<rparr>)"
| shuffled: "reaches e step C s t \<Longrightarrow> \<not> canceled t \<Longrightarrow> \<not> raised t
         \<Longrightarrow> reaches e step C s (snd (shuffle e cs t))"
| pixel: "reaches e step C s t \<Longrightarrow> \<not> canceled t \<Longrightarrow> \<not> raised t
         \<Longrightarrow> \<not> is_set_at e (polls t) \<Longrightarrow> xy \<in> C
         \<Longrightarrow> reaches e step C s
               (count_pixel (step xy ((snd (is_set e t))
                  \<lparr>trace := trace (snd (is_set e t)) @ [Pixel xy]\<rparr>)))"

text \<open>
  What a per-pixel step leaves alone: the control and observation fields, the counters,
  the application's fields, and every stored image other than the worker's copy, whose
  size it keeps.
\<close>

definition step_frame :: "(coord \<Rightarrow> state \<Rightarrow> state) \<Rightarrow> bool" where
  "step_frame step =
     (\<forall>xy s. canceled (step xy s) = canceled s \<and> raised (step xy s) = raised s
        \<and> polls (step xy s) = polls s \<and> shuffles (step xy s) = shuffles s
        \<and> trace (step xy s) = trace s \<and> published (step xy s) = published s
        \<and> processed (step xy s) = processed s \<and> total_n (step xy s) = total_n s
        \<and> processed_pixels (step xy s) = processed_pixels s
        \<and> total_pixels (step xy s) = total_pixels s
        \<and> original_image (step xy s) = original_image s
        \<and> new_image (step xy s) = new_image s
        \<and> length (heap (step xy s)) = length (heap s)
        \<and> img_size (heap (step xy s) ! new_image s) = img_size (heap s ! new_image s)
        \<and> (\<forall>a. a \<noteq> new_image s \<longrightarrow> heap (step xy s) ! a = heap s ! a))"

text \<open>The coordinates of a \<open>width\<close> by \<open>height\<close> grid.\<close>

definition grid :: "nat \<Rightarrow> nat \<Rightarrow> coord set" where
  "grid width height = {(x, y). x < width \<and> y < height}"

text \<open>The values read from the cancellation flag, in the order of the readings.\<close>

fun poll_values :: "event list \<Rightarrow> bool list" where
  "poll_values [] = []"
| "poll_values (Poll b # tr) = b # poll_values tr"
| "poll_values (Pixel xy # tr) = poll_values tr"

text \<open>Every value in the cache is the nearest entry of the palette \<open>p\<close> for its key.\<close>

definition cache_fresh :: "color list \<Rightarrow> state \<Rightarrow> bool" where
  "cache_fresh p s = (\<forall>c n. nearest_cache s c = Some n \<longrightarrow> n = find_nearest c p)"

text \<open>The first pixel a run visits, read off its event log.\<close>

fun first_pixel :: "event list \<Rightarrow> coord option" where
  "first_pixel [] = None"
| "first_pixel (Pixel xy # tr) = Some xy"
| "first_pixel (Poll b # tr) = first_pixel tr"

text \<open>
  The states of a discovery run in which everything merges, over the coordinates \<open>G\<close>
  of the grid and with \<open>orig\<close> the pixels of the original image: either nothing has been
  discovered, no pixel has been written and the cache is empty, or the palette is the
  colour of one pixel of the grid and every cached value is that colour. \<open>painted s\<close> are
  the positions whose pixel equals the first palette entry.
\<close>

definition collapse_core :: "(coord \<Rightarrow> color) \<Rightarrow> coord set \<Rightarrow> state \<Rightarrow> bool" where
  "collapse_core orig G s =
     (new_image s < length (heap s)
      \<and> (\<forall>xy \<in> G. valid_color (px_get s xy))
      \<and> ((saved_colors s = [] \<and> px_get s = orig \<and> nearest_cache s = Map.empty)
         \<or> (\<exists>xy0 \<in> G. saved_colors s = [orig xy0]
               \<and> (\<forall>c n. nearest_cache s c = Some n \<longrightarrow> n = orig xy0))))"

definition collapse_inv :: "(coord \<Rightarrow> color) \<Rightarrow> coord set \<Rightarrow> state \<Rightarrow> bool" where
  "collapse_inv orig G s =
     (collapse_core orig G s
      \<and> (case saved_colors s of
            [] \<Rightarrow> first_pixel (trace s) = None
          | c0 # cs \<Rightarrow> (\<exists>xy0 \<in> G. first_pixel (trace s) = Some xy0 \<and> c0 = orig xy0)))"

definition painted :: "state \<Rightarrow> coord set" where
  "painted s = {xy. saved_colors s \<noteq> [] \<and> px_get s xy = hd (saved_colors s)}"

section \<open>Properties of the distance metric\<close>

lemma color_distance_sq_nonneg: "0 \<le> color_distance_sq a b"
  by (simp add: color_distance_sq_def split: prod.splits)

lemma color_distance_sq_self: "color_distance_sq a a = 0"
  by (simp add: color_distance_sq_def split: prod.splits)

lemma color_distance_sq_commute: "color_distance_sq a b = color_distance_sq b a"
  by (simp add: color_distance_sq_def power2_commute split: prod.splits)

lemma color_distance_sq_eq_0_iff: "color_distance_sq a b = 0 \<longleftrightarrow> a = b"
proof -
  obtain r1 g1 b1 where a: "a = (r1, g1, b1)" by (cases a) auto
  obtain r2 g2 b2 where b: "b = (r2, g2, b2)" by (cases b) auto
  have "(r1 - r2)\<^sup>2 + (g1 - g2)\<^sup>2 + (b1 - b2)\<^sup>2 = 0
          \<longleftrightarrow> r1 = r2 \<and> g1 = g2 \<and> b1 = b2"
    by (simp add: sum_power2_eq_zero_iff add_nonneg_eq_0_iff)
  then show ?thesis by (simp add: a b color_distance_sq_def)
qed

text \<open>
  C9. For all colours \<open>a\<close> and \<open>b\<close>, \<open>color_distance_sq a b\<close> equals
  \<open>color_distance_sq b a\<close>, the distance of a colour to itself is 0, and the result is
  the integer sum of the squared differences of the three channels: the value is an
  \<open>int\<close>, computed without rounding.
\<close>

theorem C9_distance_sq_symmetric_zero_exact:
  "color_distance_sq a b = color_distance_sq b a
   \<and> color_distance_sq a a = 0
   \<and> color_distance_sq (r1, g1, b1) (r2, g2, b2)
       = (r1 - r2) * (r1 - r2) + (g1 - g2) * (g1 - g2) + (b1 - b2) * (b1 - b2)"
proof -
  have "color_distance_sq a b = color_distance_sq b a"
    by (rule color_distance_sq_commute)
  moreover have "color_distance_sq a a = 0"
    by (rule color_distance_sq_self)
  moreover have "color_distance_sq (r1, g1, b1) (r2, g2, b2)
       = (r1 - r2) * (r1 - r2) + (g1 - g2) * (g1 - g2) + (b1 - b2) * (b1 - b2)"
    by (simp add: color_distance_sq_def power2_eq_square)
  ultimately show ?thesis by blast
qed

lemma scan_nearest_first_minimum:
  assumes "first_minimum c done best" "bd = color_distance_sq c best"
  shows "first_minimum c (done @ rest) (scan_nearest c rest best bd)"
  using assms
proof (induction rest arbitrary: "done" best bd)
  case Nil
  then show ?case by simp
next
  case (Cons q rest)
  from Cons.prems obtain i where i: "i < length done" "done ! i = best"
    "\<forall>j < length done. color_distance_sq c best \<le> color_distance_sq c (done ! j)"
    "\<forall>j < i. color_distance_sq c best < color_distance_sq c (done ! j)"
    by (auto simp: first_minimum_def)
  show ?case
  proof (cases "color_distance_sq c q < bd")
    case True
    have "first_minimum c (done @ [q]) q"
      unfolding first_minimum_def
    proof (intro exI [of _ "length done"] conjI allI impI)
      show "length done < length (done @ [q])" by simp
      show "(done @ [q]) ! length done = q" by simp
      show "color_distance_sq c q \<le> color_distance_sq c ((done @ [q]) ! j)"
        if "j < length (done @ [q])" for j
        using that i(3) True Cons.prems(2) by (cases "j < length done") (auto simp: nth_append less_Suc_eq)
      show "color_distance_sq c q < color_distance_sq c ((done @ [q]) ! j)"
        if "j < length done" for j
        using that i(3) True Cons.prems(2) by (auto simp: nth_append)
    qed
    from Cons.IH [OF this refl] True show ?thesis by simp
  next
    case False
    have "first_minimum c (done @ [q]) best"
      unfolding first_minimum_def
    proof (intro exI [of _ i] conjI allI impI)
      show "i < length (done @ [q])" using i(1) by simp
      show "(done @ [q]) ! i = best" using i(1,2) by (simp add: nth_append)
      show "color_distance_sq c best \<le> color_distance_sq c ((done @ [q]) ! j)"
        if "j < length (done @ [q])" for j
        using that i(3) False Cons.prems(2) by (cases "j < length done") (auto simp: nth_append less_Suc_eq)
      show "color_distance_sq c best < color_distance_sq c ((done @ [q]) ! j)"
        if "j < i" for j
        using that i(1,4) by (auto simp: nth_append)
    qed
    from Cons.IH [OF this Cons.prems(2)] False show ?thesis by simp
  qed
qed

lemma find_nearest_first_minimum:
  assumes "cols \<noteq> []"
  shows "first_minimum c cols (find_nearest c cols)"
proof -
  from assms obtain c0 rest where cols: "cols = c0 # rest" by (cases cols) auto
  have "first_minimum c [c0] c0" by (simp add: first_minimum_def)
  from scan_nearest_first_minimum [OF this refl, of rest] show ?thesis by (simp add: cols)
qed

lemma first_minimum_member: "first_minimum c cols q \<Longrightarrow> q \<in> set cols"
  by (auto simp: first_minimum_def)

lemma first_minimum_unique:
  assumes "first_minimum c cols q" "first_minimum c cols q'"
  shows "q = q'"
proof -
  from assms(1) obtain i where i: "i < length cols" "cols ! i = q"
    "\<forall>j < length cols. color_distance_sq c q \<le> color_distance_sq c (cols ! j)"
    "\<forall>j < i. color_distance_sq c q < color_distance_sq c (cols ! j)"
    by (auto simp: first_minimum_def)
  from assms(2) obtain i' where i': "i' < length cols" "cols ! i' = q'"
    "\<forall>j < length cols. color_distance_sq c q' \<le> color_distance_sq c (cols ! j)"
    "\<forall>j < i'. color_distance_sq c q' < color_distance_sq c (cols ! j)"
    by (auto simp: first_minimum_def)
  have "i = i'"
  proof (rule ccontr)
    assume "i \<noteq> i'"
    then consider "i < i'" | "i' < i" by linarith
    then show False
    proof cases
      case 1
      with i'(4) i(2) have "color_distance_sq c q' < color_distance_sq c q" by auto
      moreover from i(3) i'(1,2) have "color_distance_sq c q \<le> color_distance_sq c q'" by auto
      ultimately show False by simp
    next
      case 2
      with i(4) i'(2) have "color_distance_sq c q < color_distance_sq c q'" by auto
      moreover from i'(3) i(1,2) have "color_distance_sq c q' \<le> color_distance_sq c q" by auto
      ultimately show False by simp
    qed
  qed
  with i(2) i'(2) show ?thesis by simp
qed

lemma find_nearest_member:
  assumes "c \<in> set cols"
  shows "find_nearest c cols = c"
proof -
  have ne: "cols \<noteq> []" using assms by auto
  let ?q = "find_nearest c cols"
  have fm: "first_minimum c cols ?q" by (rule find_nearest_first_minimum [OF ne])
  from assms obtain j where j: "j < length cols" "cols ! j = c" by (auto simp: in_set_conv_nth)
  from fm j have "color_distance_sq c ?q \<le> color_distance_sq c c"
    by (auto simp: first_minimum_def)
  then have "color_distance_sq c ?q = 0"
    using color_distance_sq_nonneg [of c ?q] by (simp add: color_distance_sq_self)
  then show ?thesis by (simp add: color_distance_sq_eq_0_iff)
qed

section \<open>The per-pixel transition of the discovery mode\<close>

lemma px_get_px_set:
  "new_image s < length (heap s) \<Longrightarrow> px_get (px_set s xy c) xy' = (if xy' = xy then c else px_get s xy')"
  by (simp add: px_get_def px_set_def)

lemma lookup_nearest_result:
  assumes "cols \<noteq> []"
  shows "case nearest_cache s c of
           Some n \<Rightarrow> lookup_nearest c cols s = (n, s)
         | None \<Rightarrow> first_minimum c cols (fst (lookup_nearest c cols s))
                   \<and> snd (lookup_nearest c cols s)
                       = s\<lparr>nearest_cache := (nearest_cache s)(c \<mapsto> fst (lookup_nearest c cols s))\<rparr>"
  using find_nearest_first_minimum [OF assms, of c]
  by (simp add: lookup_nearest_def Let_def split: option.splits)

text \<open>
  C1. One step of the discovery mode on the pixel at \<open>xy\<close>, with \<open>c\<close> the colour read
  there and \<open>P\<close> the palette before the step. If \<open>c\<close> is a member of \<open>P\<close> the state is
  unchanged. Else, if \<open>P\<close> is empty, \<open>c\<close> becomes its only entry and no pixel is written.
  Else \<open>nearest\<close> is the cached value for \<open>c\<close> when there is one and otherwise the first
  entry of \<open>P\<close> at minimum squared distance from \<open>c\<close>; if its squared distance to \<open>c\<close>
  is strictly greater than the allowed squared distance, \<open>c\<close> is appended to \<open>P\<close>, the
  cache has no entry for \<open>c\<close> and no pixel is written; otherwise the pixel at \<open>xy\<close>
  becomes \<open>nearest\<close>, the other pixels and the palette are unchanged.
\<close>

theorem C1_simplify_pixel_transition:
  assumes "new_image s < length (heap s)"
  shows
    "if px_get s xy \<in> set (saved_colors s) then simplify_pixel allowed_sq xy s = s
     else if saved_colors s = [] then
       simplify_pixel allowed_sq xy s = s\<lparr>saved_colors := [px_get s xy]\<rparr>
     else (\<exists>nearest.
       (case nearest_cache s (px_get s xy) of
          Some n \<Rightarrow> nearest = n
        | None \<Rightarrow> first_minimum (px_get s xy) (saved_colors s) nearest)
       \<and> (if allowed_sq < real_of_int (color_distance_sq nearest (px_get s xy)) then
            saved_colors (simplify_pixel allowed_sq xy s) = saved_colors s @ [px_get s xy]
            \<and> nearest_cache (simplify_pixel allowed_sq xy s)
                = (nearest_cache s)(px_get s xy := None)
            \<and> heap (simplify_pixel allowed_sq xy s) = heap s
          else
            saved_colors (simplify_pixel allowed_sq xy s) = saved_colors s
            \<and> nearest_cache (simplify_pixel allowed_sq xy s)
                = (nearest_cache s)(px_get s xy \<mapsto> nearest)
            \<and> (\<forall>xy'. px_get (simplify_pixel allowed_sq xy s) xy'
                        = (if xy' = xy then nearest else px_get s xy'))))"
proof -
  let ?c = "px_get s xy"
  let ?s' = "simplify_pixel allowed_sq xy s"
  show ?thesis
  proof (cases "?c \<in> set (saved_colors s)")
    case True
    then show ?thesis by (simp add: simplify_pixel_def)
  next
    case notin: False
    show ?thesis
    proof (cases "saved_colors s = []")
      case True
      then show ?thesis by (simp add: simplify_pixel_def)
    next
      case ne: False
      define c where "c = px_get s xy"
      define n where "n = fst (lookup_nearest c (saved_colors s) s)"
      define s1 where "s1 = snd (lookup_nearest c (saved_colors s) s)"
      define s' where "s' = simplify_pixel allowed_sq xy s"
      have n: "case nearest_cache s c of Some m \<Rightarrow> n = m
               | None \<Rightarrow> first_minimum c (saved_colors s) n"
        using lookup_nearest_result [OF ne, where s = s and c = c]
        by (auto simp: n_def split: option.splits)
      have s1: "saved_colors s1 = saved_colors s" "heap s1 = heap s"
        "new_image s1 = new_image s"
        "nearest_cache s1 = (nearest_cache s)(c \<mapsto> n)"
        by (auto simp: s1_def n_def lookup_nearest_def Let_def split: option.splits)
      have step: "s' = (if allowed_sq < real_of_int (color_distance_sq n c)
                         then s1\<lparr>saved_colors := saved_colors s1 @ [c],
                                  nearest_cache := (nearest_cache s1)(c := None)\<rparr>
                         else px_set s1 xy n)"
        using notin ne
        by (simp add: s'_def s1_def n_def c_def simplify_pixel_def Let_def split: prod.splits)
      have far: "saved_colors s' = saved_colors s @ [c]
                 \<and> nearest_cache s' = (nearest_cache s)(c := None) \<and> heap s' = heap s"
        if "allowed_sq < real_of_int (color_distance_sq n c)"
        using that by (simp add: step s1)
      have near: "saved_colors s' = saved_colors s
                 \<and> nearest_cache s' = (nearest_cache s)(c \<mapsto> n)
                 \<and> (\<forall>xy'. px_get s' xy' = (if xy' = xy then n else px_get s xy'))"
        if "\<not> allowed_sq < real_of_int (color_distance_sq n c)"
      proof -
        have "new_image s1 < length (heap s1)" using assms by (simp add: s1)
        then have "px_get (px_set s1 xy n) xy' = (if xy' = xy then n else px_get s1 xy')" for xy'
          by (rule px_get_px_set)
        moreover have "px_get s1 xy' = px_get s xy'" for xy'
          by (simp add: px_get_def s1)
        moreover have "saved_colors (px_set s1 xy n) = saved_colors s"
          "nearest_cache (px_set s1 xy n) = (nearest_cache s)(c \<mapsto> n)"
          by (simp_all add: px_set_def s1)
        ultimately show ?thesis using that by (simp add: step)
      qed
      have "(case nearest_cache s c of Some m \<Rightarrow> n = m
               | None \<Rightarrow> first_minimum c (saved_colors s) n)
            \<and> (if allowed_sq < real_of_int (color_distance_sq n c) then
                 saved_colors s' = saved_colors s @ [c]
                 \<and> nearest_cache s' = (nearest_cache s)(c := None) \<and> heap s' = heap s
               else saved_colors s' = saved_colors s
                 \<and> nearest_cache s' = (nearest_cache s)(c \<mapsto> n)
                 \<and> (\<forall>xy'. px_get s' xy' = (if xy' = xy then n else px_get s xy')))"
        using n far near by (cases "allowed_sq < real_of_int (color_distance_sq n c)") simp_all
      then have "\<exists>nearest. (case nearest_cache s c of Some m \<Rightarrow> nearest = m
               | None \<Rightarrow> first_minimum c (saved_colors s) nearest)
            \<and> (if allowed_sq < real_of_int (color_distance_sq nearest c) then
                 saved_colors s' = saved_colors s @ [c]
                 \<and> nearest_cache s' = (nearest_cache s)(c := None) \<and> heap s' = heap s
               else saved_colors s' = saved_colors s
                 \<and> nearest_cache s' = (nearest_cache s)(c \<mapsto> nearest)
                 \<and> (\<forall>xy'. px_get s' xy' = (if xy' = xy then nearest else px_get s xy')))"
        by (rule exI)
      then have "\<exists>nearest.
       (case nearest_cache s (px_get s xy) of
          Some n \<Rightarrow> nearest = n
        | None \<Rightarrow> first_minimum (px_get s xy) (saved_colors s) nearest)
       \<and> (if allowed_sq < real_of_int (color_distance_sq nearest (px_get s xy)) then
            saved_colors (simplify_pixel allowed_sq xy s) = saved_colors s @ [px_get s xy]
            \<and> nearest_cache (simplify_pixel allowed_sq xy s)
                = (nearest_cache s)(px_get s xy := None)
            \<and> heap (simplify_pixel allowed_sq xy s) = heap s
          else
            saved_colors (simplify_pixel allowed_sq xy s) = saved_colors s
            \<and> nearest_cache (simplify_pixel allowed_sq xy s)
                = (nearest_cache s)(px_get s xy \<mapsto> nearest)
            \<and> (\<forall>xy'. px_get (simplify_pixel allowed_sq xy s) xy'
                        = (if xy' = xy then nearest else px_get s xy')))"
        unfolding c_def s'_def .
      with notin ne show ?thesis by simp
    qed
  qed
qed


theorem C1_simplify_pixel_transition_witness:
  "new_image (idle_state two_pixels ''Simplify Pallette'' Map.empty 100)
     < length (heap (idle_state two_pixels ''Simplify Pallette'' Map.empty 100))
   \<and> simplify_pixel 0 (0, 0) (idle_state two_pixels ''Simplify Pallette'' Map.empty 100)
       = (idle_state two_pixels ''Simplify Pallette'' Map.empty 100)\<lparr>saved_colors := [(0, 0, 0)]\<rparr>
   \<and> simplify_pixel 0 (0, 0)
         ((idle_state two_pixels ''Simplify Pallette'' Map.empty 100)\<lparr>saved_colors := [(0, 0, 0)]\<rparr>)
       = (idle_state two_pixels ''Simplify Pallette'' Map.empty 100)\<lparr>saved_colors := [(0, 0, 0)]\<rparr>
   \<and> saved_colors (simplify_pixel 0 (1, 0)
         ((idle_state two_pixels ''Simplify Pallette'' Map.empty 100)\<lparr>saved_colors := [(0, 0, 0)]\<rparr>))
       = [(0, 0, 0), (1, 1, 1)]
   \<and> px_get (simplify_pixel 195075 (1, 0)
         ((idle_state two_pixels ''Simplify Pallette'' Map.empty 100)\<lparr>saved_colors := [(0, 0, 0)]\<rparr>))
         (1, 0)
       = (0, 0, 0)"
  using
    C1_simplify_pixel_transition [of "idle_state two_pixels ''Simplify Pallette'' Map.empty 100"
      "(0, 0)" 0]
    C1_simplify_pixel_transition
      [of "(idle_state two_pixels ''Simplify Pallette'' Map.empty 100)\<lparr>saved_colors := [(0, 0, 0)]\<rparr>"
      "(0, 0)" 0]
    C1_simplify_pixel_transition
      [of "(idle_state two_pixels ''Simplify Pallette'' Map.empty 100)\<lparr>saved_colors := [(0, 0, 0)]\<rparr>"
      "(1, 0)" 0]
    C1_simplify_pixel_transition
      [of "(idle_state two_pixels ''Simplify Pallette'' Map.empty 100)\<lparr>saved_colors := [(0, 0, 0)]\<rparr>"
      "(1, 0)" 195075]
  by (simp add: idle_state_def two_pixels_def px_get_def first_minimum_def
      color_distance_sq_def)

section \<open>The loops only perform the actions of the reachability relation\<close>

lemma is_set_fst [simp]: "fst (is_set e s) = is_set_at e (polls s)"
  by (simp add: is_set_def Let_def)

lemma is_set_snd_fields [simp]:
  "canceled (snd (is_set e s)) = canceled s"
  "raised (snd (is_set e s)) = raised s"
  "polls (snd (is_set e s)) = Suc (polls s)"
  "trace (snd (is_set e s)) = trace s @ [Poll (is_set_at e (polls s))]"
  "heap (snd (is_set e s)) = heap s"
  "new_image (snd (is_set e s)) = new_image s"
  "saved_colors (snd (is_set e s)) = saved_colors s"
  "nearest_cache (snd (is_set e s)) = nearest_cache s"
  "processed (snd (is_set e s)) = processed s"
  "total_n (snd (is_set e s)) = total_n s"
  "published (snd (is_set e s)) = published s"
  "processed_pixels (snd (is_set e s)) = processed_pixels s"
  "total_pixels (snd (is_set e s)) = total_pixels s"
  "original_image (snd (is_set e s)) = original_image s"
  "shuffles (snd (is_set e s)) = shuffles s"
  by (simp_all add: is_set_def Let_def)

lemma shuffle_fst [simp]: "fst (shuffle e cs s) = shuffle_at e (shuffles s) cs"
  by (simp add: shuffle_def)

lemma shuffle_snd_fields [simp]:
  "canceled (snd (shuffle e cs s)) = canceled s"
  "raised (snd (shuffle e cs s)) = raised s"
  "polls (snd (shuffle e cs s)) = polls s"
  "trace (snd (shuffle e cs s)) = trace s"
  "heap (snd (shuffle e cs s)) = heap s"
  "new_image (snd (shuffle e cs s)) = new_image s"
  "saved_colors (snd (shuffle e cs s)) = saved_colors s"
  "nearest_cache (snd (shuffle e cs s)) = nearest_cache s"
  "processed (snd (shuffle e cs s)) = processed s"
  "total_n (snd (shuffle e cs s)) = total_n s"
  "published (snd (shuffle e cs s)) = published s"
  "processed_pixels (snd (shuffle e cs s)) = processed_pixels s"
  "total_pixels (snd (shuffle e cs s)) = total_pixels s"
  "original_image (snd (shuffle e cs s)) = original_image s"
  "shuffles (snd (shuffle e cs s)) = Suc (shuffles s)"
  by (simp_all add: shuffle_def)

lemma count_pixel_fields [simp]:
  "canceled (count_pixel s) = canceled s"
  "polls (count_pixel s) = polls s"
  "trace (count_pixel s) = trace s"
  "heap (count_pixel s) = heap s"
  "new_image (count_pixel s) = new_image s"
  "saved_colors (count_pixel s) = saved_colors s"
  "nearest_cache (count_pixel s) = nearest_cache s"
  "processed (count_pixel s) = Suc (processed s)"
  "total_n (count_pixel s) = total_n s"
  "total_pixels (count_pixel s) = total_pixels s"
  "original_image (count_pixel s) = original_image s"
  "shuffles (count_pixel s) = shuffles s"
  by (simp_all add: count_pixel_def publish_def set_progress_def Let_def)

lemma lookup_nearest_fields [simp]:
  "canceled (snd (lookup_nearest c cols s)) = canceled s"
  "raised (snd (lookup_nearest c cols s)) = raised s"
  "polls (snd (lookup_nearest c cols s)) = polls s"
  "trace (snd (lookup_nearest c cols s)) = trace s"
  "heap (snd (lookup_nearest c cols s)) = heap s"
  "new_image (snd (lookup_nearest c cols s)) = new_image s"
  "saved_colors (snd (lookup_nearest c cols s)) = saved_colors s"
  "processed (snd (lookup_nearest c cols s)) = processed s"
  "total_n (snd (lookup_nearest c cols s)) = total_n s"
  "published (snd (lookup_nearest c cols s)) = published s"
  "processed_pixels (snd (lookup_nearest c cols s)) = processed_pixels s"
  "total_pixels (snd (lookup_nearest c cols s)) = total_pixels s"
  "original_image (snd (lookup_nearest c cols s)) = original_image s"
  "shuffles (snd (lookup_nearest c cols s)) = shuffles s"
  by (simp_all add: lookup_nearest_def Let_def split: option.splits)

lemma px_set_fields [simp]:
  "canceled (px_set s xy c) = canceled s"
  "raised (px_set s xy c) = raised s"
  "polls (px_set s xy c) = polls s"
  "trace (px_set s xy c) = trace s"
  "new_image (px_set s xy c) = new_image s"
  "saved_colors (px_set s xy c) = saved_colors s"
  "nearest_cache (px_set s xy c) = nearest_cache s"
  "processed (px_set s xy c) = processed s"
  "total_n (px_set s xy c) = total_n s"
  "published (px_set s xy c) = published s"
  "processed_pixels (px_set s xy c) = processed_pixels s"
  "total_pixels (px_set s xy c) = total_pixels s"
  "original_image (px_set s xy c) = original_image s"
  "shuffles (px_set s xy c) = shuffles s"
  "length (heap (px_set s xy c)) = length (heap s)"
  by (simp_all add: px_set_def)

lemma px_set_heap_other:
  "a \<noteq> new_image s \<Longrightarrow> heap (px_set s xy c) ! a = heap s ! a"
  by (simp add: px_set_def)

lemma px_set_img_size [simp]:
  "img_size (heap (px_set s xy c) ! a) = img_size (heap s ! a)"
proof (cases "new_image s < length (heap s)")
  case True
  then show ?thesis by (cases "a = new_image s") (simp_all add: px_set_def)
next
  case False
  then show ?thesis by (simp add: px_set_def list_update_beyond)
qed

lemma step_frame_simplify_pixel: "step_frame (simplify_pixel allowed_sq)"
  unfolding step_frame_def
  by (simp add: simplify_pixel_def Let_def case_prod_beta px_set_heap_other)

lemma step_frame_map_pixel: "step_frame (map_pixel pallette)"
  unfolding step_frame_def
  by (simp add: map_pixel_def Let_def case_prod_beta px_set_heap_other)

lemma step_frameD:
  assumes "step_frame step"
  shows "canceled (step xy s) = canceled s" "raised (step xy s) = raised s"
    "polls (step xy s) = polls s" "shuffles (step xy s) = shuffles s"
    "trace (step xy s) = trace s" "published (step xy s) = published s"
    "processed (step xy s) = processed s" "total_n (step xy s) = total_n s"
    "processed_pixels (step xy s) = processed_pixels s"
    "total_pixels (step xy s) = total_pixels s"
    "original_image (step xy s) = original_image s"
    "new_image (step xy s) = new_image s"
    "length (heap (step xy s)) = length (heap s)"
    "img_size (heap (step xy s) ! new_image s) = img_size (heap s ! new_image s)"
    "a \<noteq> new_image s \<Longrightarrow> heap (step xy s) ! a = heap s ! a"
  using assms unfolding step_frame_def by blast+

lemma simplify_pixels_reaches:
  assumes "reaches e (simplify_pixel a) C s0 s" "\<not> canceled s" "\<not> raised s" "set cs \<subseteq> C"
  shows "reaches e (simplify_pixel a) C s0 (simplify_pixels e a cs s)"
  using assms
proof (induction cs arbitrary: s)
  case Nil
  then show ?case by simp
next
  case (Cons xy rest)
  note fr = step_frameD [OF step_frame_simplify_pixel]
  show ?case
  proof (cases "is_set_at e (polls s)")
    case True
    have "reaches e (simplify_pixel a) C s0 ((snd (is_set e s))\<lparr>canceled := True\<rparr>)"
      by (rule reaches.cancel [OF Cons.prems(1-3) True])
    then show ?thesis using True by (simp add: case_prod_beta)
  next
    case False
    define s2 where "s2 = count_pixel (simplify_pixel a xy ((snd (is_set e s))
                  \<lparr>trace := trace (snd (is_set e s)) @ [Pixel xy]\<rparr>))"
    have r: "reaches e (simplify_pixel a) C s0 s2"
      unfolding s2_def using Cons.prems(4) by (intro reaches.pixel [OF Cons.prems(1-3) False]) simp
    have c: "\<not> canceled s2" using Cons.prems(2) by (simp add: s2_def fr)
    have eq: "simplify_pixels e a (xy # rest) s
              = (if raised s2 then s2 else simplify_pixels e a rest s2)"
      using False by (simp add: case_prod_beta s2_def Let_def)
    show ?thesis
    proof (cases "raised s2")
      case True
      then show ?thesis using r eq by simp
    next
      case False
      from Cons.IH [OF r c False] Cons.prems(4) show ?thesis using eq False by simp
    qed
  qed
qed

lemma simplify_tile_cols_reaches:
  assumes "reaches e (simplify_pixel a) C s0 s" "\<not> canceled s" "\<not> raised s"
    and "\<And>x0 k. x0 \<in> set xs
           \<Longrightarrow> set (shuffle_at e k (tile_coords x0 (min (x0 + tile) width) y0 y1)) \<subseteq> C"
  shows "reaches e (simplify_pixel a) C s0 (simplify_tile_cols e a width y0 y1 xs s)"
  using assms
proof (induction xs arbitrary: s)
  case Nil
  then show ?case by simp
next
  case (Cons x0 rest)
  show ?case
  proof (cases "is_set_at e (polls s)")
    case True
    have "reaches e (simplify_pixel a) C s0 ((snd (is_set e s))\<lparr>canceled := True\<rparr>)"
      by (rule reaches.cancel [OF Cons.prems(1-3) True])
    then show ?thesis using True by (simp add: case_prod_beta)
  next
    case False
    define s1 where "s1 = snd (is_set e s)"
    define cs where "cs = tile_coords x0 (min (x0 + tile) width) y0 y1"
    define s2 where "s2 = snd (shuffle e cs s1)"
    define s3 where "s3 = simplify_pixels e a (shuffle_at e (shuffles s1) cs) s2"
    have r1: "reaches e (simplify_pixel a) C s0 s1"
      unfolding s1_def by (rule reaches.poll [OF Cons.prems(1-3) False])
    have c1: "\<not> canceled s1" "\<not> raised s1" using Cons.prems(2,3) by (simp_all add: s1_def)
    have r2: "reaches e (simplify_pixel a) C s0 s2"
      unfolding s2_def by (rule reaches.shuffled [OF r1 c1])
    have c2: "\<not> canceled s2" "\<not> raised s2" using c1 by (simp_all add: s2_def)
    have sub: "set (shuffle_at e (shuffles s1) cs) \<subseteq> C"
      unfolding cs_def by (rule Cons.prems(4)) simp
    have r3: "reaches e (simplify_pixel a) C s0 s3"
      unfolding s3_def by (rule simplify_pixels_reaches [OF r2 c2 sub])
    have eq: "simplify_tile_cols e a width y0 y1 (x0 # rest) s
              = (if canceled s3 \<or> raised s3 then s3
                 else simplify_tile_cols e a width y0 y1 rest s3)"
      using False by (simp add: case_prod_beta Let_def s3_def s2_def cs_def s1_def)
    show ?thesis
    proof (cases "canceled s3 \<or> raised s3")
      case True
      then show ?thesis using r3 eq by simp
    next
      case False
      then have "reaches e (simplify_pixel a) C s0 (simplify_tile_cols e a width y0 y1 rest s3)"
        using Cons.prems(4) by (intro Cons.IH [OF r3]) auto
      then show ?thesis using eq False by simp
    qed
  qed
qed

lemma simplify_tile_rows_reaches:
  assumes "reaches e (simplify_pixel a) C s0 s" "\<not> canceled s" "\<not> raised s"
    and "\<And>x0 y0 k. y0 \<in> set ys \<Longrightarrow> x0 \<in> set (range_step 0 width tile)
           \<Longrightarrow> set (shuffle_at e k (tile_coords x0 (min (x0 + tile) width)
                                       y0 (min (y0 + tile) height))) \<subseteq> C"
  shows "reaches e (simplify_pixel a) C s0 (simplify_tile_rows e a width height ys s)"
  using assms
proof (induction ys arbitrary: s)
  case Nil
  then show ?case by simp
next
  case (Cons y0 rest)
  show ?case
  proof (cases "is_set_at e (polls s)")
    case True
    have "reaches e (simplify_pixel a) C s0 ((snd (is_set e s))\<lparr>canceled := True\<rparr>)"
      by (rule reaches.cancel [OF Cons.prems(1-3) True])
    then show ?thesis using True by (simp add: case_prod_beta)
  next
    case False
    define s1 where "s1 = snd (is_set e s)"
    define s2 where "s2 = simplify_tile_cols e a width y0 (min (y0 + tile) height)
                            (range_step 0 width tile) s1"
    have r1: "reaches e (simplify_pixel a) C s0 s1"
      unfolding s1_def by (rule reaches.poll [OF Cons.prems(1-3) False])
    have c1: "\<not> canceled s1" "\<not> raised s1" using Cons.prems(2,3) by (simp_all add: s1_def)
    have r2: "reaches e (simplify_pixel a) C s0 s2"
      unfolding s2_def using Cons.prems(4) by (intro simplify_tile_cols_reaches [OF r1 c1]) simp
    have eq: "simplify_tile_rows e a width height (y0 # rest) s
              = (if canceled s2 \<or> raised s2 then s2
                 else simplify_tile_rows e a width height rest s2)"
      using False by (simp add: case_prod_beta Let_def s2_def s1_def)
    show ?thesis
    proof (cases "canceled s2 \<or> raised s2")
      case True
      then show ?thesis using r2 eq by simp
    next
      case False
      then have "reaches e (simplify_pixel a) C s0 (simplify_tile_rows e a width height rest s2)"
        using Cons.prems(4) by (intro Cons.IH [OF r2]) auto
      then show ?thesis using eq False by simp
    qed
  qed
qed

lemma fixed_row_reaches:
  assumes "reaches e (map_pixel p) C s0 s" "\<not> canceled s" "\<not> raised s"
    "\<And>x. x \<in> set xs \<Longrightarrow> (x, y) \<in> C"
  shows "reaches e (map_pixel p) C s0 (fixed_row e p y xs s)"
  using assms
proof (induction xs arbitrary: s)
  case Nil
  then show ?case by simp
next
  case (Cons x rest)
  note fr = step_frameD [OF step_frame_map_pixel]
  show ?case
  proof (cases "is_set_at e (polls s)")
    case True
    have "reaches e (map_pixel p) C s0 ((snd (is_set e s))\<lparr>canceled := True\<rparr>)"
      by (rule reaches.cancel [OF Cons.prems(1-3) True])
    then show ?thesis using True by (simp add: case_prod_beta)
  next
    case False
    define s2 where "s2 = count_pixel (map_pixel p (x, y) ((snd (is_set e s))
                  \<lparr>trace := trace (snd (is_set e s)) @ [Pixel (x, y)]\<rparr>))"
    have r: "reaches e (map_pixel p) C s0 s2"
      unfolding s2_def using Cons.prems(4) by (intro reaches.pixel [OF Cons.prems(1-3) False]) simp
    have c: "\<not> canceled s2" using Cons.prems(2) by (simp add: s2_def fr)
    have eq: "fixed_row e p y (x # rest) s
              = (if raised s2 then s2 else fixed_row e p y rest s2)"
      using False by (simp add: case_prod_beta s2_def Let_def)
    show ?thesis
    proof (cases "raised s2")
      case True
      then show ?thesis using r eq by simp
    next
      case False
      from Cons.IH [OF r c False] Cons.prems(4) show ?thesis using eq False by simp
    qed
  qed
qed

lemma fixed_rows_reaches:
  assumes "reaches e (map_pixel p) C s0 s" "\<not> canceled s" "\<not> raised s"
    "\<And>x y. x < width \<Longrightarrow> y \<in> set ys \<Longrightarrow> (x, y) \<in> C"
  shows "reaches e (map_pixel p) C s0 (fixed_rows e p width ys s)"
  using assms
proof (induction ys arbitrary: s)
  case Nil
  then show ?case by simp
next
  case (Cons y rest)
  show ?case
  proof (cases "is_set_at e (polls s)")
    case True
    have "reaches e (map_pixel p) C s0 ((snd (is_set e s))\<lparr>canceled := True\<rparr>)"
      by (rule reaches.cancel [OF Cons.prems(1-3) True])
    then show ?thesis using True by (simp add: case_prod_beta)
  next
    case False
    define s1 where "s1 = snd (is_set e s)"
    define s2 where "s2 = fixed_row e p y [0..<width] s1"
    have r1: "reaches e (map_pixel p) C s0 s1"
      unfolding s1_def by (rule reaches.poll [OF Cons.prems(1-3) False])
    have c1: "\<not> canceled s1" "\<not> raised s1" using Cons.prems(2,3) by (simp_all add: s1_def)
    have r2: "reaches e (map_pixel p) C s0 s2"
      unfolding s2_def using Cons.prems(4) by (intro fixed_row_reaches [OF r1 c1]) simp
    have eq: "fixed_rows e p width (y # rest) s
              = (if canceled s2 \<or> raised s2 then s2 else fixed_rows e p width rest s2)"
      using False by (simp add: case_prod_beta Let_def s2_def s1_def)
    show ?thesis
    proof (cases "canceled s2 \<or> raised s2")
      case True
      then show ?thesis using r2 eq by simp
    next
      case False
      then have "reaches e (map_pixel p) C s0 (fixed_rows e p width rest s2)"
        using Cons.prems(4) by (intro Cons.IH [OF r2]) auto
      then show ?thesis using eq False by simp
    qed
  qed
qed

section \<open>The start of the loops\<close>

lemma worker_init_fields [simp]:
  "heap (worker_init a s) = heap s @ [heap s ! a]"
  "new_image (worker_init a s) = length (heap s)"
  "original_image (worker_init a s) = original_image s"
  "pal_choice (worker_init a s) = pal_choice s"
  "pallettes (worker_init a s) = pallettes s"
  "similarity_threshold (worker_init a s) = similarity_threshold s"
  "saved_colors (worker_init a s) = []"
  "processed_pixels (worker_init a s) = 0"
  "total_pixels (worker_init a s) = fst (img_size (heap s ! a)) * snd (img_size (heap s ! a))"
  "nearest_cache (worker_init a s) = Map.empty"
  "canceled (worker_init a s) = False"
  "raised (worker_init a s) = False"
  "polls (worker_init a s) = 0"
  "shuffles (worker_init a s) = 0"
  "published (worker_init a s) = [0]"
  "trace (worker_init a s) = []"
  by (simp_all add: worker_init_def set_progress_def Let_def case_prod_beta)

lemma tile_coords_set:
  "set (tile_coords x0 x1 y0 y1) = {(x, y). x0 \<le> x \<and> x < x1 \<and> y0 \<le> y \<and> y < y1}"
  by (auto simp: tile_coords_def)

lemma tile_coords_in_grid:
  "set (tile_coords x0 (min (x0 + tile) w) y0 (min (y0 + tile) h)) \<subseteq> grid w h"
  by (auto simp: tile_coords_set grid_def)

lemma permuting_set: "permuting e \<Longrightarrow> set (shuffle_at e k cs) = set cs"
  unfolding permuting_def by (metis mset_eq_setD)

lemma permuting_length: "permuting e \<Longrightarrow> length (shuffle_at e k cs) = length cs"
  unfolding permuting_def by (metis mset_eq_length)

lemma run_mode_simplify:
  assumes "pal_choice s = ''Simplify Pallette''" "img_size (heap s ! a) = (w, h)"
    "permuting e \<or> C = UNIV" "grid w h \<subseteq> C"
  shows "run_mode e a s
           = simplify_tile_rows e (allowed_sq_of (similarity_threshold s)) w h
               (range_step 0 h tile) ((worker_init a s)\<lparr>total_n := w * h, processed := 0\<rparr>)"
    and "reaches e (simplify_pixel (allowed_sq_of (similarity_threshold s))) C
           ((worker_init a s)\<lparr>total_n := w * h, processed := 0\<rparr>) (run_mode e a s)"
proof -
  show eq: "run_mode e a s
           = simplify_tile_rows e (allowed_sq_of (similarity_threshold s)) w h
               (range_step 0 h tile) ((worker_init a s)\<lparr>total_n := w * h, processed := 0\<rparr>)"
    using assms(1,2) by (simp add: run_mode_def simplify_mode_def Let_def)
  have sub: "set (shuffle_at e k (tile_coords x0 (min (x0 + tile) w) y0 (min (y0 + tile) h))) \<subseteq> C"
    for x0 y0 k
    using assms(3)
  proof
    assume "permuting e"
    then show ?thesis using tile_coords_in_grid assms(4) by (simp add: permuting_set) blast
  next
    assume "C = UNIV"
    then show ?thesis by simp
  qed
  show "reaches e (simplify_pixel (allowed_sq_of (similarity_threshold s))) C
           ((worker_init a s)\<lparr>total_n := w * h, processed := 0\<rparr>) (run_mode e a s)"
    unfolding eq by (rule simplify_tile_rows_reaches [OF reaches.start]) (simp_all add: sub)
qed

lemma run_mode_fixed:
  assumes "pal_choice s \<noteq> ''Simplify Pallette''" "img_size (heap s ! a) = (w, h)"
    "grid w h \<subseteq> C"
    "p = (case pallettes s (pal_choice s) of None \<Rightarrow> [] | Some q \<Rightarrow> q)"
  shows "run_mode e a s
           = fixed_rows e p w [0..<h]
               ((worker_init a s)\<lparr>total_n := (if p \<noteq> [] then w * h else 1), processed := 0\<rparr>)"
    and "reaches e (map_pixel p) C
           ((worker_init a s)\<lparr>total_n := (if p \<noteq> [] then w * h else 1), processed := 0\<rparr>)
           (run_mode e a s)"
proof -
  show eq: "run_mode e a s
           = fixed_rows e p w [0..<h]
               ((worker_init a s)\<lparr>total_n := (if p \<noteq> [] then w * h else 1), processed := 0\<rparr>)"
    using assms(1,2,4) by (simp add: run_mode_def fixed_mode_def Let_def)
  show "reaches e (map_pixel p) C
           ((worker_init a s)\<lparr>total_n := (if p \<noteq> [] then w * h else 1), processed := 0\<rparr>)
           (run_mode e a s)"
    unfolding eq using assms(3)
    by (intro fixed_rows_reaches [OF reaches.start]) (auto simp: grid_def)
qed

text \<open>Whatever the mode, the loops run from a clean start by the actions of \<open>reaches\<close>.\<close>

lemma run_mode_reaches:
  obtains step tn where "step_frame step"
    "reaches e step UNIV ((worker_init a s)\<lparr>total_n := tn, processed := 0\<rparr>) (run_mode e a s)"
    "step = simplify_pixel (allowed_sq_of (similarity_threshold s))
     \<or> (\<exists>p. step = map_pixel p)"
proof -
  obtain w h where wh: "img_size (heap s ! a) = (w, h)" by (cases "img_size (heap s ! a)")
  show ?thesis
  proof (cases "pal_choice s = ''Simplify Pallette''")
    case True
    from run_mode_simplify(2) [OF True wh, of e UNIV] step_frame_simplify_pixel that
    show ?thesis by blast
  next
    case False
    from run_mode_fixed(2) [OF False wh _ refl, of UNIV e] step_frame_map_pixel that
    show ?thesis by blast
  qed
qed

section \<open>Frame: what a run leaves alone\<close>

lemma reaches_frame:
  assumes "reaches e step C s t" "step_frame step"
  shows "length (heap t) = length (heap s) \<and> new_image t = new_image s
         \<and> original_image t = original_image s \<and> total_pixels t = total_pixels s
         \<and> total_n t = total_n s
         \<and> img_size (heap t ! new_image s) = img_size (heap s ! new_image s)
         \<and> (\<forall>a. a \<noteq> new_image s \<longrightarrow> heap t ! a = heap s ! a)"
  using assms(1)
proof (induction rule: reaches.induct)
  case start
  show ?case by simp
next
  case (poll t)
  then show ?case by simp
next
  case (cancel t)
  then show ?case by simp
next
  case (shuffled t cs)
  then show ?case by simp
next
  case (pixel t xy)
  note fr = step_frameD [OF assms(2)]
  define p where "p = (snd (is_set e t))\<lparr>trace := trace (snd (is_set e t)) @ [Pixel xy]\<rparr>"
  have p: "heap p = heap t" "new_image p = new_image t" "original_image p = original_image t"
    "total_pixels p = total_pixels t" "total_n p = total_n t"
    by (simp_all add: p_def)
  have n: "new_image t = new_image s" using pixel.IH by simp
  have "length (heap (step xy p)) = length (heap s)" using pixel.IH by (simp add: fr p)
  moreover have "img_size (heap (step xy p) ! new_image s) = img_size (heap s ! new_image s)"
    using pixel.IH fr(14) [of xy p] by (simp add: p n)
  moreover have "heap (step xy p) ! a = heap s ! a" if "a \<noteq> new_image s" for a
    using pixel.IH fr(15) [of a p xy] that by (simp add: p n)
  ultimately show ?case
    using pixel.IH unfolding p_def [symmetric] by (simp add: fr p)
qed

lemma report_fields [simp]:
  "heap (publish n (set_progress v s)) = heap s"
  "new_image (publish n (set_progress v s)) = new_image s"
  "original_image (publish n (set_progress v s)) = original_image s"
  "saved_colors (publish n (set_progress v s)) = saved_colors s"
  "trace (publish n (set_progress v s)) = trace s"
  "polls (publish n (set_progress v s)) = polls s"
  "total_n (publish n (set_progress v s)) = total_n s"
  "total_pixels (publish n (set_progress v s)) = total_pixels s"
  "processed (publish n (set_progress v s)) = processed s"
  "processed_pixels (publish n (set_progress v s)) = n"
  "published (publish n (set_progress v s)) = published s @ [n]"
  "canceled (publish n (set_progress v s)) = canceled s"
  "raised (publish n (set_progress v s)) = raised s"
  by (simp_all add: publish_def set_progress_def)

lemma worker_loaded:
  assumes "original_image s = Some a"
  shows "fst (analyze_image_worker e s)
           = (if raised (run_mode e a s) then FAILED
              else if canceled (run_mode e a s) then CANCELED else COMPLETED)"
    and "snd (analyze_image_worker e s)
           = (if raised (run_mode e a s) \<or> canceled (run_mode e a s) then run_mode e a s
              else publish (total_pixels (run_mode e a s)) (set_progress 100 (run_mode e a s)))"
  using assms by (simp_all add: analyze_image_worker_def Let_def)

lemma run_mode_frame:
  "length (heap (run_mode e a s)) = Suc (length (heap s))"
  "new_image (run_mode e a s) = length (heap s)"
  "original_image (run_mode e a s) = original_image s"
  "i < length (heap s) \<Longrightarrow> heap (run_mode e a s) ! i = heap s ! i"
  "img_size (heap (run_mode e a s) ! length (heap s)) = img_size (heap s ! a)"
  "total_pixels (run_mode e a s) = fst (img_size (heap s ! a)) * snd (img_size (heap s ! a))"
proof -
  obtain step tn where st: "step_frame step"
    "reaches e step UNIV ((worker_init a s)\<lparr>total_n := tn, processed := 0\<rparr>) (run_mode e a s)"
    by (rule run_mode_reaches)
  note fr = reaches_frame [OF st(2,1)]
  show "length (heap (run_mode e a s)) = Suc (length (heap s))" using fr by simp
  show "new_image (run_mode e a s) = length (heap s)" using fr by simp
  show "original_image (run_mode e a s) = original_image s" using fr by simp
  show "heap (run_mode e a s) ! i = heap s ! i" if "i < length (heap s)"
    using fr that by (simp add: nth_append)
  show "img_size (heap (run_mode e a s) ! length (heap s)) = img_size (heap s ! a)"
    using fr by simp
  show "total_pixels (run_mode e a s) = fst (img_size (heap s ! a)) * snd (img_size (heap s ! a))"
    using fr by simp
qed

text \<open>
  C10. A run does not modify the image the application holds: the worker allocates a
  copy, every pixel write goes to the copy, and the object that \<open>original_image\<close> refers
  to is the same after the run as before it, in either mode and whether the run
  completes, is canceled or fails. The reference itself is unchanged, and the worker's
  image is a different object.
\<close>

theorem C10_original_image_not_modified:
  assumes "original_image s = Some a" "a < length (heap s)"
  shows "heap (snd (analyze_image_worker e s)) ! a = heap s ! a
         \<and> original_image (snd (analyze_image_worker e s)) = Some a
         \<and> new_image (snd (analyze_image_worker e s)) \<noteq> a"
  using assms run_mode_frame(2,3) [of e a s] run_mode_frame(4) [of a s e a]
  by (simp add: worker_loaded(2) [OF assms(1)])

section \<open>The discovered palette has no duplicates\<close>

lemma simplify_pixel_distinct:
  "distinct (saved_colors s) \<Longrightarrow> distinct (saved_colors (simplify_pixel allowed_sq xy s))"
  by (simp add: simplify_pixel_def Let_def case_prod_beta)

lemma map_pixel_saved_colors [simp]: "saved_colors (map_pixel p xy s) = saved_colors s"
  by (simp add: map_pixel_def Let_def case_prod_beta)

lemma reaches_distinct:
  assumes "reaches e step C s t" "distinct (saved_colors s)"
    "step = simplify_pixel allowed_sq \<or> (\<exists>p. step = map_pixel p)"
  shows "distinct (saved_colors t)"
  using assms(1)
proof (induction rule: reaches.induct)
  case start
  show ?case by (rule assms(2))
next
  case (pixel t xy)
  then show ?case using assms(3) by (auto intro: simplify_pixel_distinct)
qed simp_all

text \<open>
  C8. The palette discovered by a run has no duplicates: in the state the worker ends
  in, the entries of \<open>saved_colors\<close> are pairwise distinct. The run may end at any reading
  of the cancellation flag, one of which precedes every pixel, so the statement covers
  the palette at every such point of a run as well as after it.
\<close>

theorem C8_saved_colors_distinct:
  assumes "original_image s = Some a"
  shows "distinct (saved_colors (snd (analyze_image_worker e s)))"
proof -
  obtain step tn where st: "step_frame step"
    "reaches e step UNIV ((worker_init a s)\<lparr>total_n := tn, processed := 0\<rparr>) (run_mode e a s)"
    "step = simplify_pixel (allowed_sq_of (similarity_threshold s)) \<or> (\<exists>p. step = map_pixel p)"
    by (rule run_mode_reaches)
  have "distinct (saved_colors (run_mode e a s))"
    by (rule reaches_distinct [OF st(2) _ st(3)]) simp
  then show ?thesis by (simp add: worker_loaded(2) [OF assms])
qed

section \<open>The value of the allowed squared distance at thresholds 0 and 100\<close>

lemma isqrt_bounds: "isqrt n * isqrt n \<le> n \<and> n < (isqrt n + 1) * (isqrt n + 1)"
proof (induction n rule: isqrt.induct)
  case (1 n)
  show ?case
  proof (cases "n < 2")
    case True
    then show ?thesis by (subst isqrt.simps, subst (2) isqrt.simps, subst (3) isqrt.simps) auto
  next
    case False
    define s where "s = isqrt (n div 4)"
    from 1 False have IH: "s * s \<le> n div 4" "n div 4 < (s + 1) * (s + 1)"
      by (auto simp: s_def)
    have lo: "(2 * s) * (2 * s) \<le> n"
    proof -
      have "4 * (s * s) \<le> 4 * (n div 4)" using IH(1) by simp
      also have "\<dots> \<le> n" by simp
      finally show ?thesis by (simp add: algebra_simps)
    qed
    have hi: "n < (2 * s + 2) * (2 * s + 2)"
    proof -
      have "n div 4 + 1 \<le> (s + 1) * (s + 1)" using IH(2) by simp
      then have "4 * (n div 4 + 1) \<le> 4 * ((s + 1) * (s + 1))" by simp
      moreover have "n < 4 * (n div 4 + 1)" by presburger
      ultimately have "n < 4 * ((s + 1) * (s + 1))" by linarith
      then show ?thesis by (simp add: algebra_simps)
    qed
    have eq: "isqrt n = (if (2 * s + 1) * (2 * s + 1) \<le> n then 2 * s + 1 else 2 * s)"
      using False by (subst isqrt.simps) (simp add: s_def Let_def)
    show ?thesis
    proof (cases "(2 * s + 1) * (2 * s + 1) \<le> n")
      case True
      then show ?thesis using hi by (simp add: eq)
    next
      case False
      then show ?thesis using lo by (simp add: eq)
    qed
  qed
qed

lemma isqrt_unique:
  assumes "r * r \<le> n" "n < (r + 1) * (r + 1)"
  shows "isqrt n = r"
proof (rule ccontr)
  assume ne: "isqrt n \<noteq> r"
  let ?s = "isqrt n"
  have b: "?s * ?s \<le> n" "n < (?s + 1) * (?s + 1)" using isqrt_bounds by auto
  from ne consider "?s + 1 \<le> r" | "r + 1 \<le> ?s" by (cases "isqrt n < r") auto
  then show False
  proof cases
    case 1
    then have "(?s + 1) * (?s + 1) \<le> r * r" by (rule mult_le_mono [OF _ 1])
    with b(2) assms(1) show False by linarith
  next
    case 2
    then have "(r + 1) * (r + 1) \<le> ?s * ?s" by (rule mult_le_mono [OF _ 2])
    with b(1) assms(2) show False by linarith
  qed
qed

lemma bitlen_unique:
  assumes "2 ^ k \<le> x" "x < 2 ^ (k + 1)"
  shows "bitlen x = int k + 1"
proof (rule antisym)
  show "bitlen x \<le> int k + 1"
    using assms(2) by (simp add: bitlen_le_iff_power nat_add_distrib)
  show "int k + 1 \<le> bitlen x"
    using assms(1) by (simp add: bitlen_ge_iff_power nat_add_distrib)
qed

lemma binexp_ge1:
  assumes "2 ^ k \<le> \<lfloor>x\<rfloor>" "\<lfloor>x\<rfloor> < 2 ^ (k + 1)"
  shows "binexp x = int k"
proof -
  have "1 \<le> \<lfloor>x\<rfloor>" using assms(1) by (smt (verit) one_le_power)
  then have "1 \<le> x" by linarith
  then show ?thesis using bitlen_unique [OF assms] by (simp add: binexp_def)
qed

lemma max_distance_value: "max_distance = 7769992811508830 / 2 ^ 44"
proof -
  have n: "(255::nat) ^ 2 * 3 = 195075" by simp
  have "bitlen 195075 = 18" using bitlen_unique [of 17 195075] by simp
  then have k: "nat (52 - (bitlen (int 195075) - 1) div 2) = 44" by simp
  have i: "isqrt (4 * (195075 * 4 ^ 44)) = 15539985623017659"
    by (rule isqrt_unique) simp_all
  show ?thesis
    unfolding max_distance_def fl_sqrt_def n Let_def k using i by simp
qed

text \<open>
  The modelled \<open>max_distance\<close> is the double nearest to the real square root of 195075:
  the root lies within half a unit in the last place, \<open>2\<^sup>-\<^sup>4\<^sup>5\<close>, of it.
\<close>

lemma max_distance_correctly_rounded:
  "\<bar>max_distance - sqrt 195075\<bar> < 1 / 2 ^ 45"
proof -
  let ?m = "7769992811508830 :: real"
  have lo: "(?m - 1 / 2) / 2 ^ 44 < sqrt 195075"
    by (rule real_less_rsqrt) (simp add: power2_eq_square)
  have hi: "sqrt 195075 < (?m + 1 / 2) / 2 ^ 44"
    by (rule real_less_lsqrt) (simp_all add: power2_eq_square)
  have "max_distance - 1 / 2 ^ 45 < sqrt 195075" "sqrt 195075 < max_distance + 1 / 2 ^ 45"
    using lo hi by (simp_all add: max_distance_value field_simps)
  then show ?thesis unfolding abs_less_iff by linarith
qed

lemma fl_0: "fl 0 = 0"
  by (simp add: fl_def)

lemma fl_1: "fl 1 = 1"
proof -
  have "binexp 1 = 0" using binexp_ge1 [of 0 1] by simp
  then show ?thesis by (simp add: fl_def round_half_even_def power_int_minus)
qed

lemma fl_max_distance: "fl max_distance = max_distance"
proof -
  have f: "\<lfloor>7769992811508830 / 2 ^ 44 :: real\<rfloor> = 441" by simp
  have "binexp max_distance = 8"
    using binexp_ge1 [of 8 max_distance] by (simp add: max_distance_value f)
  then show ?thesis
    by (simp add: fl_def max_distance_value round_half_even_def power_int_minus)
qed

lemma fl_max_distance_sq: "fl (max_distance * max_distance) = 195075"
proof -
  have f: "\<lfloor>max_distance * max_distance\<rfloor> = 195075" by (simp add: max_distance_value)
  have "binexp (max_distance * max_distance) = 17"
    using binexp_ge1 [of 17 "max_distance * max_distance"] by (simp only: f) simp
  then show ?thesis
    by (simp add: fl_def max_distance_value round_half_even_def power_int_minus Let_def)
qed

lemma allowed_sq_of_0: "allowed_sq_of 0 = 195075"
  by (simp add: allowed_sq_of_def fl_0 fl_1 fl_max_distance fl_max_distance_sq)

lemma allowed_sq_of_100: "allowed_sq_of 100 = 0"
  by (simp add: allowed_sq_of_def fl_0 fl_1)

section \<open>The scenarios of the specification, evaluated\<close>

lemmas run_defs = analyze_image_worker_def run_mode_def worker_init_def simplify_mode_def
  fixed_mode_def idle_state_def quiet_env_def cancel_env_def two_pixels_def one_pixel_def
  black_white_def set_progress_def publish_def is_set_def shuffle_def count_pixel_def
  simplify_pixel_def map_pixel_def lookup_nearest_def px_get_def px_set_def tile_coords_def
  tile_def color_distance_sq_def Let_def range_step.simps upt_rec

text \<open>Scenario B: threshold 100, both colours are kept and no pixel is rewritten.\<close>

lemma scenario_B:
  "case analyze_image_worker quiet_env (idle_state two_pixels ''Simplify Pallette'' Map.empty 100) of
     (out, S) \<Rightarrow> out = COMPLETED \<and> saved_colors S = [(0, 0, 0), (1, 1, 1)]
       \<and> pixels (heap S ! new_image S) (0, 0) = (0, 0, 0)
       \<and> pixels (heap S ! new_image S) (1, 0) = (1, 1, 1)"
  by (simp add: run_defs allowed_sq_of_100)

text \<open>Scenario C: threshold 0, the second pixel is rewritten to the first colour.\<close>

lemma scenario_C:
  "case analyze_image_worker quiet_env (idle_state two_pixels ''Simplify Pallette'' Map.empty 0) of
     (out, S) \<Rightarrow> out = COMPLETED \<and> saved_colors S = [(0, 0, 0)]
       \<and> pixels (heap S ! new_image S) (0, 0) = (0, 0, 0)
       \<and> pixels (heap S ! new_image S) (1, 0) = (0, 0, 0)
       \<and> pixels (heap S ! 0) (1, 0) = (1, 1, 1)
       \<and> published S = [0, 2] \<and> processed S = 2"
  by (simp add: run_defs allowed_sq_of_0)

text \<open>Scenario D: the pixel (10,10,10) is mapped to (0,0,0) of the palette.\<close>

lemma scenario_D:
  "case analyze_image_worker quiet_env (idle_state one_pixel ''bw'' black_white 95) of
     (out, S) \<Rightarrow> out = COMPLETED
       \<and> pixels (heap S ! new_image S) (0, 0) = (0, 0, 0)
       \<and> pixels (heap S ! 0) (0, 0) = (10, 10, 10)
       \<and> trace S = [Poll False, Poll False, Pixel (0, 0)] \<and> polls S = 2"
  by (simp add: run_defs)

theorem C10_original_image_not_modified_witness:
  "original_image (idle_state two_pixels ''Simplify Pallette'' Map.empty 0) = Some 0
   \<and> 0 < length (heap (idle_state two_pixels ''Simplify Pallette'' Map.empty 0))
   \<and> heap (snd (analyze_image_worker quiet_env
              (idle_state two_pixels ''Simplify Pallette'' Map.empty 0))) ! 0 = two_pixels
   \<and> pixels (heap (snd (analyze_image_worker quiet_env
              (idle_state two_pixels ''Simplify Pallette'' Map.empty 0))) ! 1) (1, 0) = (0, 0, 0)"
proof -
  let ?s = "idle_state two_pixels ''Simplify Pallette'' Map.empty 0"
  have h: "original_image ?s = Some 0" "0 < length (heap ?s)" "heap ?s ! 0 = two_pixels"
    by (simp_all add: idle_state_def)
  have n: "new_image (snd (analyze_image_worker quiet_env ?s)) = 1"
    using run_mode_frame(2) [of quiet_env 0 ?s] h by (simp add: worker_loaded(2) idle_state_def)
  from C10_original_image_not_modified [OF h(1,2), of quiet_env] scenario_C n h
  show ?thesis by (simp add: case_prod_beta)
qed

theorem C8_saved_colors_distinct_witness:
  "original_image (idle_state two_pixels ''Simplify Pallette'' Map.empty 100) = Some 0
   \<and> distinct (saved_colors (snd (analyze_image_worker quiet_env
        (idle_state two_pixels ''Simplify Pallette'' Map.empty 100))))
   \<and> length (saved_colors (snd (analyze_image_worker quiet_env
        (idle_state two_pixels ''Simplify Pallette'' Map.empty 100)))) = 2"
proof -
  let ?s = "idle_state two_pixels ''Simplify Pallette'' Map.empty 100"
  have h: "original_image ?s = Some 0" by (simp add: idle_state_def)
  from C8_saved_colors_distinct [OF h, of quiet_env] scenario_B h
  show ?thesis by (simp add: case_prod_beta)
qed

section \<open>Invariants of a run: failure, the event log, the published counts\<close>

lemma count_pixel_raised:
  "raised (count_pixel s) = (raised s \<or> (Suc (processed s) mod 5000 = 0 \<and> total_n s = 0))"
  by (simp add: count_pixel_def publish_def set_progress_def Let_def)

lemma count_pixel_published:
  "published (count_pixel s)
     = (if Suc (processed s) mod 5000 = 0 \<and> total_n s \<noteq> 0
        then published s @ [Suc (processed s)] else published s)"
  "processed_pixels (count_pixel s)
     = (if Suc (processed s) mod 5000 = 0 \<and> total_n s \<noteq> 0
        then Suc (processed s) else processed_pixels s)"
  by (simp_all add: count_pixel_def publish_def set_progress_def Let_def)

lemma reaches_not_raised:
  assumes "reaches e step C s t" "step_frame step" "\<not> raised s" "0 < total_n s"
  shows "\<not> raised t"
  using assms(1)
proof (induction rule: reaches.induct)
  case start
  show ?case by (rule assms(3))
next
  case (pixel t xy)
  note fr = step_frameD [OF assms(2)]
  have "total_n t = total_n s" using reaches_frame [OF pixel.hyps(1) assms(2)] by simp
  then show ?case using pixel.hyps(3) assms(4) by (simp add: count_pixel_raised fr)
qed simp_all

lemma poll_values_append [simp]:
  "poll_values (tr @ tr') = poll_values tr @ poll_values tr'"
  by (induction tr rule: poll_values.induct) simp_all

text \<open>
  The event log of a run: the readings are logged in order, every pixel event directly
  follows a reading that found the flag clear, and a reading that found the flag set is
  the last event of the log and goes with \<open>canceled\<close>.
\<close>

lemma reaches_trace:
  assumes "reaches e step C s t" "step_frame step"
    "trace s = []" "polls s = 0" "\<not> canceled s"
  shows "poll_values (trace t) = map (is_set_at e) [0..<polls t]
         \<and> (\<forall>i xy. i < length (trace t) \<and> trace t ! i = Pixel xy
                \<longrightarrow> 0 < i \<and> trace t ! (i - 1) = Poll False)
         \<and> (if canceled t
             then trace t \<noteq> [] \<and> last (trace t) = Poll True
                  \<and> Poll True \<notin> set (butlast (trace t))
             else Poll True \<notin> set (trace t))"
  using assms(1)
proof (induction rule: reaches.induct)
  case start
  show ?case using assms(3-5) by simp
next
  case (poll t)
  then show ?case by (auto simp: nth_append)
next
  case (cancel t)
  then show ?case by (auto simp: nth_append)
next
  case (shuffled t cs)
  then show ?case by simp
next
  case (pixel t xy)
  note fr = step_frameD [OF assms(2)]
  define tr where "tr = trace t"
  have t': "trace (count_pixel (step xy ((snd (is_set e t))
              \<lparr>trace := trace (snd (is_set e t)) @ [Pixel xy]\<rparr>))) = tr @ [Poll False, Pixel xy]"
    "polls (count_pixel (step xy ((snd (is_set e t))
              \<lparr>trace := trace (snd (is_set e t)) @ [Pixel xy]\<rparr>))) = Suc (polls t)"
    "canceled (count_pixel (step xy ((snd (is_set e t))
              \<lparr>trace := trace (snd (is_set e t)) @ [Pixel xy]\<rparr>))) = False"
    using pixel.hyps(2,4) by (simp_all add: fr tr_def)
  have IH: "poll_values tr = map (is_set_at e) [0..<polls t]"
    "\<And>i xy. i < length tr \<Longrightarrow> tr ! i = Pixel xy \<Longrightarrow> 0 < i \<and> tr ! (i - 1) = Poll False"
    "Poll True \<notin> set tr"
    using pixel.IH pixel.hyps(2) by (auto simp: tr_def)
  have a: "poll_values (tr @ [Poll False, Pixel xy]) = map (is_set_at e) [0..<Suc (polls t)]"
    using IH(1) pixel.hyps(4) by simp
  have b: "0 < i \<and> (tr @ [Poll False, Pixel xy]) ! (i - 1) = Poll False"
    if "i < length (tr @ [Poll False, Pixel xy])" "(tr @ [Poll False, Pixel xy]) ! i = Pixel xy'"
    for i xy'
  proof (cases "i < length tr")
    case True
    with that IH(2) [of i xy'] show ?thesis by (auto simp: nth_append)
  next
    case False
    with that have "i = length tr \<or> i = Suc (length tr)" by auto
    then show ?thesis using that(2) by (auto simp: nth_append)
  qed
  have c: "Poll True \<notin> set (tr @ [Poll False, Pixel xy])" using IH(3) by simp
  show ?case unfolding t' using a b c by auto
qed

text \<open>
  The values assigned to \<open>processed_pixels\<close> never decrease, the variable holds the last
  of them, and none exceeds the number of pixels processed so far.
\<close>

lemma reaches_published:
  assumes "reaches e step C s t" "step_frame step"
    "published s = [0]" "processed_pixels s = 0"
  shows "published t \<noteq> [] \<and> sorted (published t) \<and> last (published t) = processed_pixels t
         \<and> (\<forall>p \<in> set (published t). p \<le> processed t)"
  using assms(1)
proof (induction rule: reaches.induct)
  case start
  show ?case using assms(3,4) by simp
next
  case (pixel t xy)
  note fr = step_frameD [OF assms(2)]
  from pixel.IH show ?case
    by (auto simp: count_pixel_published fr sorted_append le_Suc_eq)
qed simp_all

section \<open>Cancellation\<close>

lemma reaches_not_both:
  assumes "reaches e step C s t" "step_frame step" "\<not> canceled s" "\<not> raised s"
  shows "\<not> (canceled t \<and> raised t)"
  using assms(1)
proof (induction rule: reaches.induct)
  case start
  show ?case using assms(3,4) by simp
next
  case (pixel t xy)
  note fr = step_frameD [OF assms(2)]
  from pixel.hyps(2) show ?case by (simp add: fr)
qed simp_all

lemma poll_values_member: "b \<in> set (poll_values tr) \<longleftrightarrow> Poll b \<in> set tr"
  by (induction tr rule: poll_values.induct) auto

lemma run_mode_trace:
  "poll_values (trace (run_mode e a s)) = map (is_set_at e) [0..<polls (run_mode e a s)]"
  "\<And>i xy. i < length (trace (run_mode e a s)) \<Longrightarrow> trace (run_mode e a s) ! i = Pixel xy
      \<Longrightarrow> 0 < i \<and> trace (run_mode e a s) ! (i - 1) = Poll False"
  "canceled (run_mode e a s) \<Longrightarrow> trace (run_mode e a s) \<noteq> []
      \<and> last (trace (run_mode e a s)) = Poll True
      \<and> Poll True \<notin> set (butlast (trace (run_mode e a s)))"
  "\<not> canceled (run_mode e a s) \<Longrightarrow> Poll True \<notin> set (trace (run_mode e a s))"
  "\<not> (canceled (run_mode e a s) \<and> raised (run_mode e a s))"
proof -
  obtain step tn where st: "step_frame step"
    "reaches e step UNIV ((worker_init a s)\<lparr>total_n := tn, processed := 0\<rparr>) (run_mode e a s)"
    by (rule run_mode_reaches)
  have tr: "poll_values (trace (run_mode e a s)) = map (is_set_at e) [0..<polls (run_mode e a s)]
         \<and> (\<forall>i xy. i < length (trace (run_mode e a s)) \<and> trace (run_mode e a s) ! i = Pixel xy
                \<longrightarrow> 0 < i \<and> trace (run_mode e a s) ! (i - 1) = Poll False)
         \<and> (if canceled (run_mode e a s)
             then trace (run_mode e a s) \<noteq> [] \<and> last (trace (run_mode e a s)) = Poll True
                  \<and> Poll True \<notin> set (butlast (trace (run_mode e a s)))
             else Poll True \<notin> set (trace (run_mode e a s)))"
    by (rule reaches_trace [OF st(2,1)]) simp_all
  show "poll_values (trace (run_mode e a s)) = map (is_set_at e) [0..<polls (run_mode e a s)]"
    using tr by blast
  show "0 < i \<and> trace (run_mode e a s) ! (i - 1) = Poll False"
    if "i < length (trace (run_mode e a s))" "trace (run_mode e a s) ! i = Pixel xy" for i xy
    using tr that by blast
  show "trace (run_mode e a s) \<noteq> [] \<and> last (trace (run_mode e a s)) = Poll True
      \<and> Poll True \<notin> set (butlast (trace (run_mode e a s)))" if "canceled (run_mode e a s)"
    using tr that by simp
  show "Poll True \<notin> set (trace (run_mode e a s))" if "\<not> canceled (run_mode e a s)"
    using tr that by simp
  show "\<not> (canceled (run_mode e a s) \<and> raised (run_mode e a s))"
    by (rule reaches_not_both [OF st(2,1)]) simp_all
qed

lemma run_mode_readings:
  "canceled (run_mode e a s) \<longleftrightarrow> (\<exists>k < polls (run_mode e a s). is_set_at e k)"
  "\<And>k. Suc k < polls (run_mode e a s) \<Longrightarrow> \<not> is_set_at e k"
proof -
  let ?t = "run_mode e a s"
  have pv: "poll_values (trace ?t) = map (is_set_at e) [0..<polls ?t]"
    by (rule run_mode_trace(1))
  have mem: "Poll True \<in> set (trace ?t) \<longleftrightarrow> (\<exists>k < polls ?t. is_set_at e k)"
    unfolding poll_values_member [symmetric] pv by auto
  show "canceled ?t \<longleftrightarrow> (\<exists>k < polls ?t. is_set_at e k)"
  proof (cases "canceled ?t")
    case True
    with run_mode_trace(3) [OF True] have "Poll True \<in> set (trace ?t)"
      by (metis last_in_set)
    with True mem show ?thesis by simp
  next
    case False
    with run_mode_trace(4) [OF False] mem show ?thesis by simp
  qed
  show "\<not> is_set_at e k" if k: "Suc k < polls ?t" for k
  proof (cases "canceled ?t")
    case False
    with run_mode_trace(4) [OF False] mem k show ?thesis
      using Suc_lessD by blast
  next
    case True
    from run_mode_trace(3) [OF True] obtain tr where tr: "trace ?t = tr @ [Poll True]"
      "Poll True \<notin> set tr"
      by (metis append_butlast_last_id)
    have "poll_values tr @ [True] = map (is_set_at e) [0..<polls ?t]"
      using pv by (simp add: tr)
    moreover obtain n where n: "polls ?t = Suc n" using k by (cases "polls ?t") auto
    ultimately have "poll_values tr = map (is_set_at e) [0..<n]" by simp
    moreover have "True \<notin> set (poll_values tr)" using tr(2) by (simp add: poll_values_member)
    ultimately have "\<forall>j < n. \<not> is_set_at e j" by auto
    then show ?thesis using k n by simp
  qed
qed

text \<open>
  C7, as amended. Every reading of the cancellation flag is logged, the \<open>k\<close>-th with the
  value \<open>is_set_at e k\<close>. The outcome is CANCELED exactly when one of the readings made
  found the flag set; that reading is then the last event of the run, all earlier
  readings found the flag clear, and every pixel event directly follows a reading that
  found the flag clear. So no pixel is processed after a reading that sees the request:
  at most the one pixel whose reading preceded the request is processed after it, and
  the run ends CANCELED, which is neither COMPLETED nor FAILED.
\<close>

theorem C7_observed_cancellation_stops_the_run:
  assumes "original_image s = Some a"
  shows
    "(fst (analyze_image_worker e s) = CANCELED
        \<longleftrightarrow> (\<exists>k < polls (snd (analyze_image_worker e s)). is_set_at e k))
     \<and> (fst (analyze_image_worker e s) = CANCELED
        \<longrightarrow> trace (snd (analyze_image_worker e s)) \<noteq> []
          \<and> last (trace (snd (analyze_image_worker e s))) = Poll True)
     \<and> (\<forall>k. Suc k < polls (snd (analyze_image_worker e s)) \<longrightarrow> \<not> is_set_at e k)
     \<and> (\<forall>i xy. i < length (trace (snd (analyze_image_worker e s)))
              \<and> trace (snd (analyze_image_worker e s)) ! i = Pixel xy
           \<longrightarrow> 0 < i \<and> trace (snd (analyze_image_worker e s)) ! (i - 1) = Poll False)
     \<and> poll_values (trace (snd (analyze_image_worker e s)))
         = map (is_set_at e) [0..<polls (snd (analyze_image_worker e s))]"
proof -
  let ?t = "run_mode e a s"
  have tr: "trace (snd (analyze_image_worker e s)) = trace ?t"
    "polls (snd (analyze_image_worker e s)) = polls ?t"
    by (simp_all add: worker_loaded(2) [OF assms])
  have out: "fst (analyze_image_worker e s) = CANCELED \<longleftrightarrow> canceled ?t"
    using run_mode_trace(5) [where e = e and a = a and s = s] by (auto simp: worker_loaded(1) [OF assms])
  show ?thesis
    unfolding tr out
    using run_mode_readings [where e = e and a = a and s = s]
      run_mode_trace(1,2,3) [where e = e and a = a and s = s]
    by blast
qed


text \<open>
  Scenario D with the flag found set from the reading numbered 1 on: the row reading
  finds it clear, the reading before the only pixel finds it set.
\<close>

lemma scenario_D_canceled:
  "case analyze_image_worker (cancel_env 1) (idle_state one_pixel ''bw'' black_white 95) of
     (out, S) \<Rightarrow> out = CANCELED \<and> polls S = 2 \<and> trace S = [Poll False, Poll True]
       \<and> pixels (heap S ! new_image S) (0, 0) = (10, 10, 10)"
  by (simp add: run_defs)

text \<open>
  Scenario D with the flag set after the reading numbered 1, the last one of the run:
  the request is made while the worker processes its only pixel.
\<close>

lemma scenario_D_late_request:
  "case analyze_image_worker (cancel_env 2) (idle_state one_pixel ''bw'' black_white 95) of
     (out, S) \<Rightarrow> out = COMPLETED \<and> polls S = 2
       \<and> trace S = [Poll False, Poll False, Pixel (0, 0)]"
  by (simp add: run_defs)

theorem C7_observed_cancellation_stops_the_run_witness:
  "original_image (idle_state one_pixel ''bw'' black_white 95) = Some 0
   \<and> fst (analyze_image_worker (cancel_env 1) (idle_state one_pixel ''bw'' black_white 95))
       = CANCELED
   \<and> is_set_at (cancel_env 1) 1
   \<and> \<not> is_set_at (cancel_env 1) 0
   \<and> last (trace (snd (analyze_image_worker (cancel_env 1)
         (idle_state one_pixel ''bw'' black_white 95)))) = Poll True
   \<and> trace (snd (analyze_image_worker quiet_env
         (idle_state one_pixel ''bw'' black_white 95))) ! 2 = Pixel (0, 0)
   \<and> trace (snd (analyze_image_worker quiet_env
         (idle_state one_pixel ''bw'' black_white 95))) ! (2 - 1) = Poll False"
proof -
  let ?s = "idle_state one_pixel ''bw'' black_white 95"
  let ?c = "analyze_image_worker (cancel_env 1) ?s"
  let ?q = "analyze_image_worker quiet_env ?s"
  have h: "original_image ?s = Some 0" by (simp add: idle_state_def)
  have c: "is_set_at (cancel_env 1) 1" "\<not> is_set_at (cancel_env 1) 0"
    by (simp_all add: cancel_env_def)
  have sc: "fst ?c = CANCELED"
    using scenario_D_canceled by (simp add: case_prod_beta)
  have sq: "trace (snd ?q) = [Poll False, Poll False, Pixel (0, 0)]"
    using scenario_D by (simp add: case_prod_beta)
  have l: "last (trace (snd ?c)) = Poll True"
    using C7_observed_cancellation_stops_the_run [OF h, of "cancel_env 1"] sc by blast
  have i: "2 < length (trace (snd ?q))" "trace (snd ?q) ! 2 = Pixel (0, 0)"
    by (simp_all add: sq)
  have p: "trace (snd ?q) ! (2 - 1) = Poll False"
    using C7_observed_cancellation_stops_the_run [OF h, of quiet_env] i by blast
  show ?thesis using h c sc l i(2) p by blast
qed

text \<open>
  C7 as stated fails for a request made after the last reading of the flag. In scenario D
  the worker reads the flag twice; with the flag set from then on, which is the case of a
  request made while the only pixel is processed, the flag is set when the loops end and
  the outcome is COMPLETED.
\<close>

theorem C7_counterexample:
  "is_set_at (cancel_env 2)
     (polls (snd (analyze_image_worker (cancel_env 2)
        (idle_state one_pixel ''bw'' black_white 95))))
   \<and> fst (analyze_image_worker (cancel_env 2) (idle_state one_pixel ''bw'' black_white 95))
       = COMPLETED"
  using scenario_D_late_request by (simp add: case_prod_beta cancel_env_def)

section \<open>Fixed-palette mode with an empty palette\<close>

lemma map_pixel_empty [simp]: "map_pixel [] xy s = s"
  by (simp add: map_pixel_def)

lemma reaches_empty_palette_heap:
  assumes "reaches e (map_pixel []) C s t"
  shows "heap t = heap s"
  using assms by (induction rule: reaches.induct) simp_all

text \<open>
  C5. With a palette that is missing or has no entries, the fixed-palette mode does not
  fail: the local \<open>total\<close> is 1, so the progress quotient is never a division by zero,
  the run completes unless a reading of the flag cancels it, and at the end of the run,
  wherever it ends, the worker's image is equal to the original one, pixel for pixel.
\<close>

theorem C5_empty_palette_is_a_no_op:
  assumes "original_image s = Some a"
    and "pal_choice s \<noteq> ''Simplify Pallette''"
    and "(case pallettes s (pal_choice s) of None \<Rightarrow> [] | Some p \<Rightarrow> p) = []"
  shows "fst (analyze_image_worker e s) \<noteq> FAILED
         \<and> ((\<forall>k. \<not> is_set_at e k) \<longrightarrow> fst (analyze_image_worker e s) = COMPLETED)
         \<and> heap (snd (analyze_image_worker e s)) ! new_image (snd (analyze_image_worker e s))
             = heap s ! a
         \<and> total_n (snd (analyze_image_worker e s)) = 1"
proof -
  let ?t = "run_mode e a s"
  obtain w h where wh: "img_size (heap s ! a) = (w, h)" by (cases "img_size (heap s ! a)")
  let ?s1 = "(worker_init a s)\<lparr>total_n := (if [] \<noteq> ([]::color list) then w * h else 1),
                processed := 0\<rparr>"
  have r: "reaches e (map_pixel []) UNIV ?s1 ?t"
    using run_mode_fixed(2) [OF assms(2) wh _ assms(3) [symmetric], of UNIV e] by simp
  have nr: "\<not> raised ?t"
    by (rule reaches_not_raised [OF r step_frame_map_pixel]) simp_all
  have tn: "total_n ?t = 1"
    using reaches_frame [OF r step_frame_map_pixel] by simp
  have hp: "heap ?t = heap s @ [heap s ! a]"
    using reaches_empty_palette_heap [OF r] by simp
  have ni: "new_image ?t = length (heap s)" by (rule run_mode_frame(2))
  have c: "\<not> canceled ?t" if "\<forall>k. \<not> is_set_at e k"
    using run_mode_readings(1) [of e a s] that by simp
  show ?thesis
    using nr tn hp ni c by (simp add: worker_loaded [OF assms(1)])
qed

theorem C5_empty_palette_is_a_no_op_witness:
  "original_image (idle_state one_pixel ''missing'' black_white 95) = Some 0
   \<and> pal_choice (idle_state one_pixel ''missing'' black_white 95) \<noteq> ''Simplify Pallette''
   \<and> black_white ''missing'' = None
   \<and> (\<forall>k. \<not> is_set_at quiet_env k)
   \<and> fst (analyze_image_worker quiet_env (idle_state one_pixel ''missing'' black_white 95))
       = COMPLETED
   \<and> heap (snd (analyze_image_worker quiet_env (idle_state one_pixel ''missing'' black_white 95)))
       ! new_image (snd (analyze_image_worker quiet_env
           (idle_state one_pixel ''missing'' black_white 95)))
       = one_pixel
   \<and> total_n (snd (analyze_image_worker quiet_env
        (idle_state one_pixel ''missing'' black_white 95))) = 1"
proof -
  let ?s = "idle_state one_pixel ''missing'' black_white 95"
  have h: "original_image ?s = Some 0" "pal_choice ?s \<noteq> ''Simplify Pallette''"
    "(case pallettes ?s (pal_choice ?s) of None \<Rightarrow> [] | Some p \<Rightarrow> p) = []"
    "black_white ''missing'' = None" "heap ?s ! 0 = one_pixel"
    by (simp_all add: idle_state_def black_white_def)
  have q: "\<forall>k. \<not> is_set_at quiet_env k" by (simp add: quiet_env_def)
  from C5_empty_palette_is_a_no_op [OF h(1-3), of quiet_env] q h
  show ?thesis by simp
qed

section \<open>Fixed-palette mode: what the run writes\<close>

lemma px_get_frame [simp]:
  "px_get (snd (is_set e s)) = px_get s"
  "px_get (count_pixel s) = px_get s"
  "px_get (s\<lparr>trace := tr\<rparr>) = px_get s"
  "px_get (s\<lparr>canceled := b\<rparr>) = px_get s"
  "px_get (snd (shuffle e cs s)) = px_get s"
  "px_get (snd (lookup_nearest c cols s)) = px_get s"
  by (simp_all add: px_get_def fun_eq_iff)

lemma cache_fresh_frame [simp]:
  "cache_fresh p (snd (is_set e s)) = cache_fresh p s"
  "cache_fresh p (count_pixel s) = cache_fresh p s"
  "cache_fresh p (s\<lparr>trace := tr\<rparr>) = cache_fresh p s"
  "cache_fresh p (px_set s xy c) = cache_fresh p s"
  by (simp_all add: cache_fresh_def)

lemma lookup_nearest_fresh:
  assumes "cache_fresh p s"
  shows "fst (lookup_nearest c p s) = find_nearest c p"
    and "cache_fresh p (snd (lookup_nearest c p s))"
proof -
  show "fst (lookup_nearest c p s) = find_nearest c p"
  proof (cases "nearest_cache s c")
    case None
    then show ?thesis by (simp add: lookup_nearest_def Let_def)
  next
    case (Some m)
    with assms have "m = find_nearest c p" unfolding cache_fresh_def by blast
    then show ?thesis using Some by (simp add: lookup_nearest_def)
  qed
  show "cache_fresh p (snd (lookup_nearest c p s))"
  proof (cases "nearest_cache s c")
    case None
    then show ?thesis using assms
      unfolding cache_fresh_def by (simp add: lookup_nearest_def Let_def del: split_paired_All)
  next
    case (Some m)
    then show ?thesis using assms by (simp add: lookup_nearest_def)
  qed
qed

lemma map_pixel_effect:
  assumes "p \<noteq> []" "new_image s < length (heap s)" "cache_fresh p s"
  shows "px_get (map_pixel p xy s) xy'
           = (if xy' = xy then find_nearest (px_get s xy) p else px_get s xy')"
    and "cache_fresh p (map_pixel p xy s)"
    and "new_image (map_pixel p xy s) < length (heap (map_pixel p xy s))"
proof -
  define c where "c = px_get s xy"
  define s1 where "s1 = snd (lookup_nearest c p s)"
  have m: "map_pixel p xy s = px_set s1 xy (find_nearest c p)"
    using assms(1) lookup_nearest_fresh(1) [OF assms(3), of c]
    by (simp add: map_pixel_def Let_def case_prod_beta c_def s1_def)
  have v: "new_image s1 < length (heap s1)" using assms(2) by (simp add: s1_def)
  show "px_get (map_pixel p xy s) xy'
           = (if xy' = xy then find_nearest (px_get s xy) p else px_get s xy')"
    unfolding m px_get_px_set [OF v] by (simp add: s1_def c_def)
  show "cache_fresh p (map_pixel p xy s)"
    unfolding m using lookup_nearest_fresh(2) [OF assms(3), of c] by (simp add: s1_def)
  show "new_image (map_pixel p xy s) < length (heap (map_pixel p xy s))"
    unfolding m using v by simp
qed

lemma fixed_row_pixels:
  assumes "p \<noteq> []" "new_image s < length (heap s)" "cache_fresh p s" "distinct xs"
    "\<not> canceled (fixed_row e p y xs s)" "\<not> raised (fixed_row e p y xs s)"
  shows "px_get (fixed_row e p y xs s) xy
            = (if fst xy \<in> set xs \<and> snd xy = y then find_nearest (px_get s xy) p
               else px_get s xy)
         \<and> cache_fresh p (fixed_row e p y xs s)
         \<and> new_image (fixed_row e p y xs s) < length (heap (fixed_row e p y xs s))"
  using assms(2-)
proof (induction xs arbitrary: s)
  case Nil
  then show ?case by simp
next
  case (Cons x rest)
  define s1 where "s1 = (snd (is_set e s))\<lparr>trace := trace (snd (is_set e s)) @ [Pixel (x, y)]\<rparr>"
  define s2 where "s2 = count_pixel (map_pixel p (x, y) s1)"
  have b: "\<not> is_set_at e (polls s)"
  proof
    assume "is_set_at e (polls s)"
    then have "canceled (fixed_row e p y (x # rest) s)" by (simp add: case_prod_beta)
    with Cons.prems(4) show False by blast
  qed
  have eq: "fixed_row e p y (x # rest) s = (if raised s2 then s2 else fixed_row e p y rest s2)"
    using b by (simp add: case_prod_beta Let_def s2_def s1_def)
  have nr: "\<not> raised s2"
  proof
    assume "raised s2"
    then have "raised (fixed_row e p y (x # rest) s)" unfolding eq by simp
    with Cons.prems(5) show False by blast
  qed
  have eq': "fixed_row e p y (x # rest) s = fixed_row e p y rest s2" using eq nr by simp
  have v1: "new_image s1 < length (heap s1)" "cache_fresh p s1" "px_get s1 = px_get s"
    using Cons.prems(1,2) by (simp_all add: s1_def)
  note me = map_pixel_effect [OF assms(1) v1(1,2)]
  have v2: "new_image s2 < length (heap s2)" "cache_fresh p s2"
    using me(2,3) [of "(x, y)"] by (simp_all add: s2_def)
  have p2: "px_get s2 xy = (if xy = (x, y) then find_nearest (px_get s (x, y)) p else px_get s xy)"
    using me(1) [of "(x, y)" xy] by (simp add: s2_def v1(3))
  have d: "distinct rest" "x \<notin> set rest" using Cons.prems(3) by simp_all
  have c': "\<not> canceled (fixed_row e p y rest s2)" "\<not> raised (fixed_row e p y rest s2)"
    using Cons.prems(4,5) unfolding eq' by blast+
  note IH = Cons.IH [OF v2 d(1) c']
  have "px_get (fixed_row e p y rest s2) xy
            = (if fst xy \<in> set (x # rest) \<and> snd xy = y then find_nearest (px_get s xy) p
               else px_get s xy)"
  proof (cases "xy = (x, y)")
    case True
    then show ?thesis using IH d(2) p2 by simp
  next
    case False
    then have "px_get s2 xy = px_get s xy" by (simp add: p2)
    moreover have "fst xy \<in> set (x # rest) \<and> snd xy = y \<longleftrightarrow> fst xy \<in> set rest \<and> snd xy = y"
      using False by (cases xy) auto
    ultimately show ?thesis using IH by presburger
  qed
  then show ?case using IH unfolding eq' by blast
qed

lemma fixed_rows_pixels:
  assumes "p \<noteq> []" "new_image s < length (heap s)" "cache_fresh p s" "distinct ys"
    "\<not> canceled (fixed_rows e p w ys s)" "\<not> raised (fixed_rows e p w ys s)"
  shows "px_get (fixed_rows e p w ys s) xy
            = (if fst xy < w \<and> snd xy \<in> set ys then find_nearest (px_get s xy) p
               else px_get s xy)
         \<and> cache_fresh p (fixed_rows e p w ys s)
         \<and> new_image (fixed_rows e p w ys s) < length (heap (fixed_rows e p w ys s))"
  using assms(2-)
proof (induction ys arbitrary: s)
  case Nil
  then show ?case by simp
next
  case (Cons y rest)
  define s1 where "s1 = snd (is_set e s)"
  define s2 where "s2 = fixed_row e p y [0..<w] s1"
  have b: "\<not> is_set_at e (polls s)"
  proof
    assume "is_set_at e (polls s)"
    then have "canceled (fixed_rows e p w (y # rest) s)" by (simp add: case_prod_beta)
    with Cons.prems(4) show False by blast
  qed
  have eq: "fixed_rows e p w (y # rest) s
              = (if canceled s2 \<or> raised s2 then s2 else fixed_rows e p w rest s2)"
    using b by (simp add: case_prod_beta Let_def s2_def s1_def)
  have cl: "\<not> canceled s2" "\<not> raised s2"
    using Cons.prems(4,5) unfolding eq by (auto split: if_splits)
  have eq': "fixed_rows e p w (y # rest) s = fixed_rows e p w rest s2" using eq cl by simp
  have v1: "new_image s1 < length (heap s1)" "cache_fresh p s1" "px_get s1 = px_get s"
    using Cons.prems(1,2) by (simp_all add: s1_def)
  have cl1: "\<not> canceled (fixed_row e p y [0..<w] s1)" "\<not> raised (fixed_row e p y [0..<w] s1)"
    using cl by (simp_all add: s2_def)
  have row: "px_get s2 xy
            = (if fst xy \<in> set [0..<w] \<and> snd xy = y then find_nearest (px_get s1 xy) p
               else px_get s1 xy)
         \<and> cache_fresh p s2 \<and> new_image s2 < length (heap s2)"
    unfolding s2_def by (rule fixed_row_pixels [OF assms(1) v1(1,2) _ cl1]) simp
  have d: "distinct rest" "y \<notin> set rest" using Cons.prems(3) by simp_all
  have c': "\<not> canceled (fixed_rows e p w rest s2)" "\<not> raised (fixed_rows e p w rest s2)"
    using Cons.prems(4,5) unfolding eq' by blast+
  have v2: "new_image s2 < length (heap s2)" "cache_fresh p s2" using row by blast+
  note IH = Cons.IH [OF v2 d(1) c']
  have "px_get (fixed_rows e p w rest s2) xy
            = (if fst xy < w \<and> snd xy \<in> set (y # rest) then find_nearest (px_get s xy) p
               else px_get s xy)"
  proof (cases "snd xy = y")
    case True
    then have "snd xy \<notin> set rest" using d(2) by simp
    then show ?thesis using IH row True by (simp add: v1(3))
  next
    case False
    then have "px_get s2 xy = px_get s xy" using row by (simp add: v1(3))
    then show ?thesis using IH False by simp
  qed
  then show ?case using IH unfolding eq' by blast
qed

text \<open>
  A completed fixed-palette run with a non-empty palette: inside the grid every pixel of
  the worker's image is the nearest palette entry of the original pixel, outside nothing
  is written, and the size is the original's.
\<close>

lemma fixed_run_pixels:
  assumes "original_image s = Some a" "pal_choice s \<noteq> ''Simplify Pallette''"
    "pallettes s (pal_choice s) = Some p" "p \<noteq> []" "img_size (heap s ! a) = (w, h)"
    "fst (analyze_image_worker e s) = COMPLETED"
  shows "pixels (heap (snd (analyze_image_worker e s)) ! new_image (snd (analyze_image_worker e s))) xy
           = (if fst xy < w \<and> snd xy < h then find_nearest (pixels (heap s ! a) xy) p
              else pixels (heap s ! a) xy)"
    and "img_size (heap (snd (analyze_image_worker e s)) ! new_image (snd (analyze_image_worker e s)))
           = (w, h)"
proof -
  define t where "t = run_mode e a s"
  define s1 where
    "s1 = (worker_init a s)\<lparr>total_n := (if p \<noteq> [] then w * h else 1), processed := 0\<rparr>"
  have pe: "p = (case pallettes s (pal_choice s) of None \<Rightarrow> [] | Some q \<Rightarrow> q)"
    using assms(3) by simp
  have eq: "t = fixed_rows e p w [0..<h] s1"
    unfolding t_def s1_def by (rule run_mode_fixed(1) [OF assms(2,5) _ pe, of UNIV]) simp
  have cl: "\<not> canceled t" "\<not> raised t"
    using assms(6) by (auto simp: t_def worker_loaded(1) [OF assms(1)] split: if_splits)
  have S: "snd (analyze_image_worker e s) = publish (total_pixels t) (set_progress 100 t)"
    using cl by (simp add: t_def worker_loaded(2) [OF assms(1)])
  have v: "new_image s1 < length (heap s1)" "cache_fresh p s1"
    by (simp_all add: s1_def cache_fresh_def)
  have px: "px_get t xy
            = (if fst xy < w \<and> snd xy \<in> set [0..<h] then find_nearest (px_get s1 xy) p
               else px_get s1 xy)"
    unfolding eq using fixed_rows_pixels [OF assms(4) v, of "[0..<h]" e w xy] cl
    unfolding eq by simp
  have p1: "px_get s1 xy = pixels (heap s ! a) xy"
    by (simp add: px_get_def s1_def)
  show "pixels (heap (snd (analyze_image_worker e s)) ! new_image (snd (analyze_image_worker e s))) xy
           = (if fst xy < w \<and> snd xy < h then find_nearest (pixels (heap s ! a) xy) p
              else pixels (heap s ! a) xy)"
    using px unfolding p1 by (simp add: S px_get_def)
  show "img_size (heap (snd (analyze_image_worker e s)) ! new_image (snd (analyze_image_worker e s)))
           = (w, h)"
    using run_mode_frame(2,5) [of e a s] assms(5) by (simp add: S t_def)
qed

section \<open>Runs that are not canceled complete\<close>

lemma run_mode_not_raised:
  assumes "0 < fst (img_size (heap s ! a)) * snd (img_size (heap s ! a))"
  shows "\<not> raised (run_mode e a s)"
proof -
  obtain w h where wh: "img_size (heap s ! a) = (w, h)" by (cases "img_size (heap s ! a)")
  have pos: "0 < w * h" using assms by (simp add: wh)
  show ?thesis
  proof (cases "pal_choice s = ''Simplify Pallette''")
    case True
    show ?thesis
      by (rule reaches_not_raised
            [OF run_mode_simplify(2) [OF True wh, of e UNIV] step_frame_simplify_pixel])
         (use pos in simp_all)
  next
    case False
    show ?thesis
      by (rule reaches_not_raised
            [OF run_mode_fixed(2) [OF False wh _ refl, of UNIV e] step_frame_map_pixel])
         (use pos in simp_all)
  qed
qed

lemma quiet_run_completes:
  assumes "original_image s = Some a" "\<forall>k. \<not> is_set_at e k"
    "0 < fst (img_size (heap s ! a)) * snd (img_size (heap s ! a))"
  shows "fst (analyze_image_worker e s) = COMPLETED"
  using run_mode_not_raised [OF assms(3), of e] run_mode_readings(1) [of e a s] assms(2)
  by (simp add: worker_loaded(1) [OF assms(1)])

section \<open>Fixed-palette mode: nearest entry and idempotence\<close>

text \<open>
  C2. In a completed fixed-palette run with a non-empty palette \<open>p\<close>, the output pixel at
  every position of the grid is an entry of \<open>p\<close>, no entry of \<open>p\<close> is strictly nearer (in
  squared distance) to the original pixel, and it is the first minimum in palette order:
  every entry at an earlier position is strictly farther.
\<close>

theorem C2_fixed_palette_maps_to_first_nearest:
  assumes "original_image s = Some a" "pal_choice s \<noteq> ''Simplify Pallette''"
    "pallettes s (pal_choice s) = Some p" "p \<noteq> []" "img_size (heap s ! a) = (w, h)"
    "fst (analyze_image_worker e s) = COMPLETED" "x < w" "y < h"
  shows
    "pixels (heap (snd (analyze_image_worker e s)) ! new_image (snd (analyze_image_worker e s)))
        (x, y) \<in> set p
     \<and> \<not> (\<exists>q \<in> set p. color_distance_sq (pixels (heap s ! a) (x, y)) q
           < color_distance_sq (pixels (heap s ! a) (x, y))
               (pixels (heap (snd (analyze_image_worker e s))
                  ! new_image (snd (analyze_image_worker e s))) (x, y)))
     \<and> first_minimum (pixels (heap s ! a) (x, y)) p
         (pixels (heap (snd (analyze_image_worker e s))
            ! new_image (snd (analyze_image_worker e s))) (x, y))"
proof -
  define c where "c = pixels (heap s ! a) (x, y)"
  define c' where "c' = pixels (heap (snd (analyze_image_worker e s))
            ! new_image (snd (analyze_image_worker e s))) (x, y)"
  have "c' = find_nearest c p"
    using fixed_run_pixels(1) [OF assms(1-6), of "(x, y)"] assms(7,8) by (simp add: c_def c'_def)
  then have fm: "first_minimum c p c'" using find_nearest_first_minimum [OF assms(4)] by simp
  then have "c' \<in> set p" by (rule first_minimum_member)
  moreover have "\<not> (\<exists>q \<in> set p. color_distance_sq c q < color_distance_sq c c')"
  proof
    assume "\<exists>q \<in> set p. color_distance_sq c q < color_distance_sq c c'"
    then obtain j where "j < length p" "color_distance_sq c (p ! j) < color_distance_sq c c'"
      by (auto simp: in_set_conv_nth)
    moreover from fm have "\<forall>j < length p. color_distance_sq c c' \<le> color_distance_sq c (p ! j)"
      unfolding first_minimum_def by blast
    ultimately show False by fastforce
  qed
  ultimately show ?thesis using fm unfolding c_def c'_def by blast
qed

theorem C2_fixed_palette_maps_to_first_nearest_witness:
  "original_image (idle_state one_pixel ''bw'' black_white 95) = Some 0
   \<and> pal_choice (idle_state one_pixel ''bw'' black_white 95) \<noteq> ''Simplify Pallette''
   \<and> black_white ''bw'' = Some [(0, 0, 0), (255, 255, 255)]
   \<and> fst (analyze_image_worker quiet_env (idle_state one_pixel ''bw'' black_white 95)) = COMPLETED
   \<and> first_minimum (10, 10, 10) [(0, 0, 0), (255, 255, 255)]
       (pixels (heap (snd (analyze_image_worker quiet_env
          (idle_state one_pixel ''bw'' black_white 95)))
          ! new_image (snd (analyze_image_worker quiet_env
              (idle_state one_pixel ''bw'' black_white 95)))) (0, 0))
   \<and> pixels (heap (snd (analyze_image_worker quiet_env
          (idle_state one_pixel ''bw'' black_white 95)))
          ! new_image (snd (analyze_image_worker quiet_env
              (idle_state one_pixel ''bw'' black_white 95)))) (0, 0) = (0, 0, 0)"
proof -
  let ?s = "idle_state one_pixel ''bw'' black_white 95"
  have h: "original_image ?s = Some 0" "pal_choice ?s \<noteq> ''Simplify Pallette''"
    "pallettes ?s (pal_choice ?s) = Some [(0, 0, 0), (255, 255, 255)]"
    "[(0, 0, 0), (255, 255, 255)] \<noteq> ([]::color list)"
    "img_size (heap ?s ! 0) = (1, 1)" "pixels (heap ?s ! 0) (0, 0) = (10, 10, 10)"
    "black_white ''bw'' = Some [(0, 0, 0), (255, 255, 255)]"
    by (simp_all add: idle_state_def black_white_def one_pixel_def)
  have c: "fst (analyze_image_worker quiet_env ?s) = COMPLETED"
    and v: "pixels (heap (snd (analyze_image_worker quiet_env ?s))
          ! new_image (snd (analyze_image_worker quiet_env ?s))) (0, 0) = (0, 0, 0)"
    using scenario_D by (simp_all add: case_prod_beta)
  from C2_fixed_palette_maps_to_first_nearest [OF h(1-5) c, of 0 0]
  have "first_minimum (10, 10, 10) [(0, 0, 0), (255, 255, 255)]
       (pixels (heap (snd (analyze_image_worker quiet_env ?s))
          ! new_image (snd (analyze_image_worker quiet_env ?s))) (0, 0))"
    unfolding h(6) by simp
  then show ?thesis using h(1,2,7) c v by blast
qed

text \<open>
  C4. Applying the fixed-palette mode to the output of a completed fixed-palette run,
  with the same non-empty palette, gives an image equal to that output: the second run
  starts from a state \<open>s'\<close> whose original image is the image the first run produced.
\<close>

theorem C4_fixed_palette_idempotent:
  assumes "original_image s = Some a" "pal_choice s \<noteq> ''Simplify Pallette''"
    "pallettes s (pal_choice s) = Some p" "p \<noteq> []"
    "fst (analyze_image_worker e s) = COMPLETED"
    and "original_image s' = Some b" "pal_choice s' \<noteq> ''Simplify Pallette''"
    "pallettes s' (pal_choice s') = Some p"
    "heap s' ! b
       = heap (snd (analyze_image_worker e s)) ! new_image (snd (analyze_image_worker e s))"
    "fst (analyze_image_worker e' s') = COMPLETED"
  shows "heap (snd (analyze_image_worker e' s')) ! new_image (snd (analyze_image_worker e' s'))
         = heap (snd (analyze_image_worker e s)) ! new_image (snd (analyze_image_worker e s))"
proof -
  define out1 where
    "out1 = heap (snd (analyze_image_worker e s)) ! new_image (snd (analyze_image_worker e s))"
  define out2 where
    "out2 = heap (snd (analyze_image_worker e' s')) ! new_image (snd (analyze_image_worker e' s'))"
  obtain w h where wh: "img_size (heap s ! a) = (w, h)" by (cases "img_size (heap s ! a)")
  have sz1: "img_size out1 = (w, h)"
    unfolding out1_def by (rule fixed_run_pixels(2) [OF assms(1-4) wh assms(5)])
  have px1: "pixels out1 xy = (if fst xy < w \<and> snd xy < h
                then find_nearest (pixels (heap s ! a) xy) p else pixels (heap s ! a) xy)" for xy
    unfolding out1_def by (rule fixed_run_pixels(1) [OF assms(1-4) wh assms(5)])
  have wh': "img_size (heap s' ! b) = (w, h)" using sz1 assms(9) by (simp add: out1_def)
  have sz2: "img_size out2 = (w, h)"
    unfolding out2_def by (rule fixed_run_pixels(2) [OF assms(6-8) assms(4) wh' assms(10)])
  have px2: "pixels out2 xy = (if fst xy < w \<and> snd xy < h
                then find_nearest (pixels out1 xy) p else pixels out1 xy)" for xy
    using fixed_run_pixels(1) [OF assms(6-8) assms(4) wh' assms(10), of xy] assms(9)
    by (simp add: out1_def out2_def)
  have "pixels out2 xy = pixels out1 xy" for xy
  proof (cases "fst xy < w \<and> snd xy < h")
    case True
    then have "pixels out1 xy = find_nearest (pixels (heap s ! a) xy) p" by (simp add: px1)
    then have "pixels out1 xy \<in> set p"
      using first_minimum_member [OF find_nearest_first_minimum [OF assms(4)]] by simp
    then have "find_nearest (pixels out1 xy) p = pixels out1 xy" by (rule find_nearest_member)
    then show ?thesis using True by (simp add: px2)
  next
    case False
    then show ?thesis unfolding px2 by presburger
  qed
  then have "pixels out2 = pixels out1" by (simp add: fun_eq_iff)
  then have "out2 = out1" using sz1 sz2 by (simp add: image.equality)
  then show ?thesis unfolding out1_def out2_def .
qed

theorem C4_fixed_palette_idempotent_witness:
  "original_image (idle_state one_pixel ''bw'' black_white 95) = Some 0
   \<and> fst (analyze_image_worker quiet_env (idle_state one_pixel ''bw'' black_white 95)) = COMPLETED
   \<and> fst (analyze_image_worker quiet_env
        (idle_state
           (heap (snd (analyze_image_worker quiet_env (idle_state one_pixel ''bw'' black_white 95)))
              ! new_image (snd (analyze_image_worker quiet_env
                  (idle_state one_pixel ''bw'' black_white 95))))
           ''bw'' black_white 95)) = COMPLETED
   \<and> pixels (heap (snd (analyze_image_worker quiet_env
        (idle_state
           (heap (snd (analyze_image_worker quiet_env (idle_state one_pixel ''bw'' black_white 95)))
              ! new_image (snd (analyze_image_worker quiet_env
                  (idle_state one_pixel ''bw'' black_white 95))))
           ''bw'' black_white 95)))
        ! new_image (snd (analyze_image_worker quiet_env
        (idle_state
           (heap (snd (analyze_image_worker quiet_env (idle_state one_pixel ''bw'' black_white 95)))
              ! new_image (snd (analyze_image_worker quiet_env
                  (idle_state one_pixel ''bw'' black_white 95))))
           ''bw'' black_white 95)))) (0, 0) = (0, 0, 0)"
proof -
  let ?s = "idle_state one_pixel ''bw'' black_white 95"
  define out1 where "out1 = heap (snd (analyze_image_worker quiet_env ?s))
              ! new_image (snd (analyze_image_worker quiet_env ?s))"
  let ?s' = "idle_state out1 ''bw'' black_white 95"
  let ?p = "[(0, 0, 0), (255, 255, 255)] :: color list"
  have h: "original_image ?s = Some 0" "pal_choice ?s \<noteq> ''Simplify Pallette''"
    "pallettes ?s (pal_choice ?s) = Some ?p" "?p \<noteq> []" "img_size (heap ?s ! 0) = (1, 1)"
    by (simp_all add: idle_state_def black_white_def one_pixel_def)
  have h': "original_image ?s' = Some 0" "pal_choice ?s' \<noteq> ''Simplify Pallette''"
    "pallettes ?s' (pal_choice ?s') = Some ?p" "heap ?s' ! 0 = out1"
    by (simp_all add: idle_state_def black_white_def)
  have q: "\<forall>k. \<not> is_set_at quiet_env k" by (simp add: quiet_env_def)
  have c: "fst (analyze_image_worker quiet_env ?s) = COMPLETED"
    and v: "pixels out1 (0, 0) = (0, 0, 0)"
    using scenario_D by (simp_all add: case_prod_beta out1_def)
  have sz: "img_size out1 = (1, 1)"
    unfolding out1_def by (rule fixed_run_pixels(2) [OF h(1-5) c])
  have c': "fst (analyze_image_worker quiet_env ?s') = COMPLETED"
    by (rule quiet_run_completes [OF h'(1) q]) (simp add: h'(4) sz)
  from C4_fixed_palette_idempotent [OF h(1-4) c h'(1-3) _ c'] h'(4)
  have "heap (snd (analyze_image_worker quiet_env ?s'))
          ! new_image (snd (analyze_image_worker quiet_env ?s')) = out1"
    by (simp add: out1_def)
  then show ?thesis using h(1) c c' v unfolding out1_def by simp
qed

section \<open>Counting the processed pixels\<close>

lemma range_step_less: "x0 \<in> set (range_step a n t) \<Longrightarrow> x0 < n"
proof (induction a n t rule: range_step.induct)
  case (1 start stop step)
  then show ?case
    by (subst (asm) (2) range_step.simps) (auto split: if_splits)
qed

lemma range_step_ge: "x0 \<in> set (range_step a n t) \<Longrightarrow> a \<le> x0"
proof (induction a n t rule: range_step.induct)
  case (1 start stop step)
  then show ?case
    by (subst (asm) (2) range_step.simps) (fastforce split: if_splits)
qed

lemma range_step_sum:
  "0 < t \<Longrightarrow> sum_list (map (\<lambda>x0. min (x0 + t) n - x0) (range_step a n t)) = n - a"
proof (induction a n t rule: range_step.induct)
  case (1 start stop step)
  show ?case
  proof (cases "start < stop")
    case True
    then have "sum_list (map (\<lambda>x0. min (x0 + step) stop - x0) (range_step (start + step) stop step))
                 = stop - (start + step)"
      using 1 by simp
    then show ?thesis using True "1.prems"
      by (subst range_step.simps) (simp add: min_def)
  next
    case False
    then show ?thesis by (subst range_step.simps) simp
  qed
qed

lemma tile_coords_length: "length (tile_coords x0 x1 y0 y1) = (x1 - x0) * (y1 - y0)"
  by (simp add: tile_coords_def length_concat comp_def sum_list_triv)

lemma simplify_pixels_processed:
  "processed (simplify_pixels e a cs s) \<le> processed s + length cs
   \<and> (canceled (simplify_pixels e a cs s) \<and> \<not> canceled s
        \<longrightarrow> processed (simplify_pixels e a cs s) < processed s + length cs)"
proof (induction cs arbitrary: s)
  case Nil
  show ?case by simp
next
  case (Cons xy rest)
  note fr = step_frameD [OF step_frame_simplify_pixel]
  show ?case
  proof (cases "is_set_at e (polls s)")
    case True
    then show ?thesis by (simp add: case_prod_beta)
  next
    case False
    define s2 where "s2 = count_pixel (simplify_pixel a xy ((snd (is_set e s))
                  \<lparr>trace := trace (snd (is_set e s)) @ [Pixel xy]\<rparr>))"
    have eq: "simplify_pixels e a (xy # rest) s
              = (if raised s2 then s2 else simplify_pixels e a rest s2)"
      using False by (simp add: case_prod_beta s2_def Let_def)
    have p2: "processed s2 = Suc (processed s)" "canceled s2 = canceled s"
      by (simp_all add: s2_def fr)
    show ?thesis
    proof (cases "raised s2")
      case True
      then show ?thesis unfolding eq by (simp add: p2)
    next
      case False
      then show ?thesis unfolding eq using Cons.IH [of s2] by (simp add: p2)
    qed
  qed
qed

lemma fixed_row_processed:
  "processed (fixed_row e p y xs s) \<le> processed s + length xs
   \<and> (canceled (fixed_row e p y xs s) \<and> \<not> canceled s
        \<longrightarrow> processed (fixed_row e p y xs s) < processed s + length xs)"
proof (induction xs arbitrary: s)
  case Nil
  show ?case by simp
next
  case (Cons x rest)
  note fr = step_frameD [OF step_frame_map_pixel]
  show ?case
  proof (cases "is_set_at e (polls s)")
    case True
    then show ?thesis by (simp add: case_prod_beta)
  next
    case False
    define s2 where "s2 = count_pixel (map_pixel p (x, y) ((snd (is_set e s))
                  \<lparr>trace := trace (snd (is_set e s)) @ [Pixel (x, y)]\<rparr>))"
    have eq: "fixed_row e p y (x # rest) s
              = (if raised s2 then s2 else fixed_row e p y rest s2)"
      using False by (simp add: case_prod_beta s2_def Let_def)
    have p2: "processed s2 = Suc (processed s)" "canceled s2 = canceled s"
      by (simp_all add: s2_def fr)
    show ?thesis
    proof (cases "raised s2")
      case True
      then show ?thesis unfolding eq by (simp add: p2)
    next
      case False
      then show ?thesis unfolding eq using Cons.IH [of s2] by (simp add: p2)
    qed
  qed
qed

lemma fixed_rows_processed:
  "processed (fixed_rows e p w ys s) \<le> processed s + length ys * w
   \<and> (canceled (fixed_rows e p w ys s) \<and> \<not> canceled s \<and> 0 < w
        \<longrightarrow> processed (fixed_rows e p w ys s) < processed s + length ys * w)"
proof (induction ys arbitrary: s)
  case Nil
  show ?case by simp
next
  case (Cons y rest)
  show ?case
  proof (cases "is_set_at e (polls s)")
    case True
    then show ?thesis by (simp add: case_prod_beta)
  next
    case False
    define s1 where "s1 = snd (is_set e s)"
    define s2 where "s2 = fixed_row e p y [0..<w] s1"
    have eq: "fixed_rows e p w (y # rest) s
              = (if canceled s2 \<or> raised s2 then s2 else fixed_rows e p w rest s2)"
      using False by (simp add: case_prod_beta Let_def s2_def s1_def)
    have r: "processed s2 \<le> processed s + w"
      "canceled s2 \<and> \<not> canceled s \<longrightarrow> processed s2 < processed s + w"
      using fixed_row_processed [of e p y "[0..<w]" s1] by (simp_all add: s2_def s1_def)
    show ?thesis
    proof (cases "canceled s2 \<or> raised s2")
      case True
      then show ?thesis unfolding eq using r by auto
    next
      case False
      then show ?thesis unfolding eq using Cons.IH [of s2] r by auto
    qed
  qed
qed

lemma simplify_tile_cols_processed:
  assumes "permuting e"
  shows "processed (simplify_tile_cols e a w y0 y1 xs s)
           \<le> processed s + sum_list (map (\<lambda>x0. min (x0 + tile) w - x0) xs) * (y1 - y0)
   \<and> (canceled (simplify_tile_cols e a w y0 y1 xs s) \<and> \<not> canceled s
          \<and> y0 < y1 \<and> (\<forall>x0 \<in> set xs. x0 < w)
        \<longrightarrow> processed (simplify_tile_cols e a w y0 y1 xs s)
              < processed s + sum_list (map (\<lambda>x0. min (x0 + tile) w - x0) xs) * (y1 - y0))"
proof (induction xs arbitrary: s)
  case Nil
  show ?case by simp
next
  case (Cons x0 rest)
  define n where "n = (min (x0 + tile) w - x0) * (y1 - y0)"
  define m where "m = sum_list (map (\<lambda>x0. min (x0 + tile) w - x0) rest) * (y1 - y0)"
  have sum: "sum_list (map (\<lambda>x0. min (x0 + tile) w - x0) (x0 # rest)) * (y1 - y0) = n + m"
    by (simp add: n_def m_def algebra_simps)
  have npos: "0 < n" if "y0 < y1" "x0 < w" using that by (simp add: n_def tile_def)
  show ?case
  proof (cases "is_set_at e (polls s)")
    case True
    then show ?thesis unfolding sum using npos by (auto simp: case_prod_beta)
  next
    case False
    define s1 where "s1 = snd (is_set e s)"
    define cs where "cs = shuffle_at e (shuffles s1) (tile_coords x0 (min (x0 + tile) w) y0 y1)"
    define s2 where "s2 = snd (shuffle e (tile_coords x0 (min (x0 + tile) w) y0 y1) s1)"
    define s3 where "s3 = simplify_pixels e a cs s2"
    have eq: "simplify_tile_cols e a w y0 y1 (x0 # rest) s
              = (if canceled s3 \<or> raised s3 then s3
                 else simplify_tile_cols e a w y0 y1 rest s3)"
      using False by (simp add: case_prod_beta Let_def s3_def s2_def cs_def s1_def)
    have len: "length cs = n"
      by (simp add: cs_def permuting_length [OF assms] tile_coords_length n_def)
    have r: "processed s3 \<le> processed s + n"
      "canceled s3 \<and> \<not> canceled s \<longrightarrow> processed s3 < processed s + n"
      using simplify_pixels_processed [of e a cs s2] by (simp_all add: s3_def s2_def s1_def len)
    show ?thesis
    proof (cases "canceled s3 \<or> raised s3")
      case True
      then show ?thesis unfolding eq sum using r by auto
    next
      case False
      then show ?thesis unfolding eq sum using Cons.IH [of s3] r
        by (auto simp: m_def [symmetric])
    qed
  qed
qed

lemma simplify_tile_rows_processed:
  assumes "permuting e"
  shows "processed (simplify_tile_rows e a w h ys s)
           \<le> processed s + w * sum_list (map (\<lambda>y0. min (y0 + tile) h - y0) ys)
   \<and> (canceled (simplify_tile_rows e a w h ys s) \<and> \<not> canceled s
          \<and> 0 < w \<and> (\<forall>y0 \<in> set ys. y0 < h)
        \<longrightarrow> processed (simplify_tile_rows e a w h ys s)
              < processed s + w * sum_list (map (\<lambda>y0. min (y0 + tile) h - y0) ys))"
proof (induction ys arbitrary: s)
  case Nil
  show ?case by simp
next
  case (Cons y0 rest)
  define n where "n = w * (min (y0 + tile) h - y0)"
  define m where "m = w * sum_list (map (\<lambda>y0. min (y0 + tile) h - y0) rest)"
  have sum: "w * sum_list (map (\<lambda>y0. min (y0 + tile) h - y0) (y0 # rest)) = n + m"
    by (simp add: n_def m_def algebra_simps)
  have npos: "0 < n" if "0 < w" "y0 < h" using that by (simp add: n_def tile_def)
  have xs: "sum_list (map (\<lambda>x0. min (x0 + tile) w - x0) (range_step 0 w tile)) = w"
    using range_step_sum [of tile w 0] by (simp add: tile_def)
  show ?case
  proof (cases "is_set_at e (polls s)")
    case True
    then show ?thesis unfolding sum using npos by (auto simp: case_prod_beta)
  next
    case False
    define s1 where "s1 = snd (is_set e s)"
    define s2 where "s2 = simplify_tile_cols e a w y0 (min (y0 + tile) h) (range_step 0 w tile) s1"
    have eq: "simplify_tile_rows e a w h (y0 # rest) s
              = (if canceled s2 \<or> raised s2 then s2
                 else simplify_tile_rows e a w h rest s2)"
      using False by (simp add: case_prod_beta Let_def s2_def s1_def)
    have yy: "y0 < min (y0 + tile) h" if "y0 < h" using that by (simp add: tile_def)
    have xw: "\<forall>x0 \<in> set (range_step 0 w tile). x0 < w" using range_step_less by blast
    have c: "processed s2 \<le> processed s1 + w * (min (y0 + tile) h - y0)
       \<and> (canceled s2 \<and> \<not> canceled s1 \<and> y0 < min (y0 + tile) h
              \<and> (\<forall>x0 \<in> set (range_step 0 w tile). x0 < w)
            \<longrightarrow> processed s2 < processed s1 + w * (min (y0 + tile) h - y0))"
      using simplify_tile_cols_processed [OF assms, of a w y0 "min (y0 + tile) h"
          "range_step 0 w tile" s1]
      unfolding xs s2_def by blast
    have s1p: "processed s1 = processed s" "canceled s1 = canceled s" by (simp_all add: s1_def)
    have r: "processed s2 \<le> processed s + n"
      "canceled s2 \<and> \<not> canceled s \<and> y0 < h \<longrightarrow> processed s2 < processed s + n"
      using c yy xw unfolding s1p n_def by blast+
    show ?thesis
    proof (cases "canceled s2 \<or> raised s2")
      case True
      then show ?thesis unfolding eq sum using r by auto
    next
      case False
      then show ?thesis unfolding eq sum using Cons.IH [of s2] r
        by (auto simp: m_def [symmetric])
    qed
  qed
qed

lemma run_mode_processed:
  assumes "img_size (heap s ! a) = (w, h)"
    "permuting e \<or> pal_choice s \<noteq> ''Simplify Pallette''"
  shows "processed (run_mode e a s) \<le> w * h"
    and "canceled (run_mode e a s) \<Longrightarrow> 0 < w \<Longrightarrow> 0 < h \<Longrightarrow> processed (run_mode e a s) < w * h"
proof -
  have ys: "sum_list (map (\<lambda>y0. min (y0 + tile) h - y0) (range_step 0 h tile)) = h"
    using range_step_sum [of tile h 0] by (simp add: tile_def)
  have "processed (run_mode e a s) \<le> w * h
        \<and> (canceled (run_mode e a s) \<and> 0 < w \<and> 0 < h \<longrightarrow> processed (run_mode e a s) < w * h)"
  proof (cases "pal_choice s = ''Simplify Pallette''")
    case True
    then have pe: "permuting e" using assms(2) by simp
    define s1 where "s1 = (worker_init a s)\<lparr>total_n := w * h, processed := 0\<rparr>"
    have eq: "run_mode e a s
           = simplify_tile_rows e (allowed_sq_of (similarity_threshold s)) w h
               (range_step 0 h tile) s1"
      unfolding s1_def by (rule run_mode_simplify(1) [OF True assms(1), of e UNIV]) simp_all
    have s1: "processed s1 = 0" "\<not> canceled s1" by (simp_all add: s1_def)
    have yh: "\<forall>y0 \<in> set (range_step 0 h tile). y0 < h" using range_step_less by blast
    show ?thesis
      using simplify_tile_rows_processed [OF pe, of "allowed_sq_of (similarity_threshold s)"
          w h "range_step 0 h tile" s1] yh s1(2)
      unfolding eq ys s1(1) by simp
  next
    case False
    define p where "p = (case pallettes s (pal_choice s) of None \<Rightarrow> [] | Some q \<Rightarrow> q)"
    define s1 where
      "s1 = (worker_init a s)\<lparr>total_n := (if p \<noteq> [] then w * h else 1), processed := 0\<rparr>"
    have eq: "run_mode e a s = fixed_rows e p w [0..<h] s1"
      unfolding s1_def by (rule run_mode_fixed(1) [OF False assms(1) _ p_def, of UNIV]) simp
    have s1: "processed s1 = 0" "\<not> canceled s1" by (simp_all add: s1_def)
    show ?thesis
      using fixed_rows_processed [of e p w "[0..<h]" s1] s1(2)
      unfolding eq s1(1) by (simp add: mult.commute)
  qed
  then show "processed (run_mode e a s) \<le> w * h"
    and "canceled (run_mode e a s) \<Longrightarrow> 0 < w \<Longrightarrow> 0 < h \<Longrightarrow> processed (run_mode e a s) < w * h"
    by blast+
qed

lemma run_mode_published:
  "published (run_mode e a s) \<noteq> []"
  "sorted (published (run_mode e a s))"
  "last (published (run_mode e a s)) = processed_pixels (run_mode e a s)"
  "p \<in> set (published (run_mode e a s)) \<Longrightarrow> p \<le> processed (run_mode e a s)"
proof -
  obtain step tn where st: "step_frame step"
    "reaches e step UNIV ((worker_init a s)\<lparr>total_n := tn, processed := 0\<rparr>) (run_mode e a s)"
    by (rule run_mode_reaches)
  have inv: "published (run_mode e a s) \<noteq> [] \<and> sorted (published (run_mode e a s))
         \<and> last (published (run_mode e a s)) = processed_pixels (run_mode e a s)
         \<and> (\<forall>p \<in> set (published (run_mode e a s)). p \<le> processed (run_mode e a s))"
    by (rule reaches_published [OF st(2,1)]) simp_all
  show "published (run_mode e a s) \<noteq> []" "sorted (published (run_mode e a s))"
    "last (published (run_mode e a s)) = processed_pixels (run_mode e a s)"
    using inv by blast+
  show "p \<le> processed (run_mode e a s)" if "p \<in> set (published (run_mode e a s))"
    using inv that by blast
qed

section \<open>Progress\<close>

text \<open>
  C6. The values assigned to \<open>processed_pixels\<close> during a run, in the order of the
  assignments, never decrease and never exceed \<open>total_pixels\<close>, which the run sets to
  width times height at its start; \<open>processed_pixels\<close> holds the last of them. When the
  run is COMPLETED the count equals the total; when a run over a non-empty grid is
  CANCELED the count is strictly below the total.
\<close>

theorem C6_processed_count_monotone_and_bounded:
  assumes "original_image s = Some a" "img_size (heap s ! a) = (w, h)"
    "permuting e \<or> pal_choice s \<noteq> ''Simplify Pallette''"
  shows "sorted (published (snd (analyze_image_worker e s)))
     \<and> (\<forall>p \<in> set (published (snd (analyze_image_worker e s))).
           p \<le> total_pixels (snd (analyze_image_worker e s)))
     \<and> total_pixels (snd (analyze_image_worker e s)) = w * h
     \<and> published (snd (analyze_image_worker e s)) \<noteq> []
     \<and> processed_pixels (snd (analyze_image_worker e s))
         = last (published (snd (analyze_image_worker e s)))
     \<and> (fst (analyze_image_worker e s) = COMPLETED
          \<longrightarrow> processed_pixels (snd (analyze_image_worker e s))
              = total_pixels (snd (analyze_image_worker e s)))
     \<and> (fst (analyze_image_worker e s) = CANCELED \<and> 0 < w \<and> 0 < h
          \<longrightarrow> processed_pixels (snd (analyze_image_worker e s))
              < total_pixels (snd (analyze_image_worker e s)))"
proof -
  define t where "t = run_mode e a s"
  have tp: "total_pixels t = w * h"
    using run_mode_frame(6) [of e a s] assms(2) by (simp add: t_def)
  have pub: "published t \<noteq> []" "sorted (published t)" "last (published t) = processed_pixels t"
    "\<And>p. p \<in> set (published t) \<Longrightarrow> p \<le> processed t"
    unfolding t_def by (rule run_mode_published)+
  have pr: "processed t \<le> w * h"
    "canceled t \<Longrightarrow> 0 < w \<Longrightarrow> 0 < h \<Longrightarrow> processed t < w * h"
    unfolding t_def by (rule run_mode_processed [OF assms(2,3)])+
  have le: "p \<le> w * h" if "p \<in> set (published t)" for p
    using pub(4) [OF that] pr(1) by simp
  have lastp: "processed_pixels t \<le> processed t"
    using pub(4) [OF last_in_set [OF pub(1)]] pub(3) by simp
  show ?thesis
  proof (cases "raised t \<or> canceled t")
    case True
    then have S: "snd (analyze_image_worker e s) = t"
      by (simp add: worker_loaded(2) [OF assms(1)] t_def)
    have out: "fst (analyze_image_worker e s) \<noteq> COMPLETED"
      "fst (analyze_image_worker e s) = CANCELED \<Longrightarrow> canceled t"
      using True by (auto simp: worker_loaded(1) [OF assms(1)] t_def split: if_splits)
    have "processed_pixels t < w * h" if "fst (analyze_image_worker e s) = CANCELED" "0 < w" "0 < h"
      using pr(2) [OF out(2) [OF that(1)] that(2,3)] lastp by simp
    then show ?thesis unfolding S using pub(1,2,3) le tp out(1) by auto
  next
    case False
    then have S: "snd (analyze_image_worker e s) = publish (total_pixels t) (set_progress 100 t)"
      by (simp add: worker_loaded(2) [OF assms(1)] t_def)
    have out: "fst (analyze_image_worker e s) = COMPLETED"
      using False by (simp add: worker_loaded(1) [OF assms(1)] t_def)
    have "sorted (published t @ [w * h])"
      using pub(2) le by (simp add: sorted_append)
    then show ?thesis unfolding S using le tp out by auto
  qed
qed

theorem C6_processed_count_monotone_and_bounded_witness:
  "original_image (idle_state two_pixels ''Simplify Pallette'' Map.empty 0) = Some 0
   \<and> permuting quiet_env
   \<and> fst (analyze_image_worker quiet_env
        (idle_state two_pixels ''Simplify Pallette'' Map.empty 0)) = COMPLETED
   \<and> published (snd (analyze_image_worker quiet_env
        (idle_state two_pixels ''Simplify Pallette'' Map.empty 0))) = [0, 2]
   \<and> processed_pixels (snd (analyze_image_worker quiet_env
        (idle_state two_pixels ''Simplify Pallette'' Map.empty 0))) = 2
   \<and> total_pixels (snd (analyze_image_worker quiet_env
        (idle_state two_pixels ''Simplify Pallette'' Map.empty 0))) = 2
   \<and> fst (analyze_image_worker (cancel_env 1) (idle_state one_pixel ''bw'' black_white 95))
        = CANCELED
   \<and> processed_pixels (snd (analyze_image_worker (cancel_env 1)
        (idle_state one_pixel ''bw'' black_white 95)))
      < total_pixels (snd (analyze_image_worker (cancel_env 1)
        (idle_state one_pixel ''bw'' black_white 95)))"
proof -
  let ?s = "idle_state two_pixels ''Simplify Pallette'' Map.empty 0"
  let ?d = "idle_state one_pixel ''bw'' black_white 95"
  have h: "original_image ?s = Some 0" "img_size (heap ?s ! 0) = (2, 1)"
    by (simp_all add: idle_state_def two_pixels_def)
  have hd: "original_image ?d = Some 0" "img_size (heap ?d ! 0) = (1, 1)"
    "pal_choice ?d \<noteq> ''Simplify Pallette''"
    by (simp_all add: idle_state_def one_pixel_def)
  have pq: "permuting quiet_env" by (simp add: permuting_def quiet_env_def)
  have c: "fst (analyze_image_worker quiet_env ?s) = COMPLETED"
    "published (snd (analyze_image_worker quiet_env ?s)) = [0, 2]"
    using scenario_C by (simp_all add: case_prod_beta)
  have cd: "fst (analyze_image_worker (cancel_env 1) ?d) = CANCELED"
    using scenario_D_canceled by (simp add: case_prod_beta)
  note T = C6_processed_count_monotone_and_bounded [OF h, of quiet_env]
  note D = C6_processed_count_monotone_and_bounded [OF hd(1,2), of "cancel_env 1"]
  have 1: "processed_pixels (snd (analyze_image_worker quiet_env ?s)) = 2"
    "total_pixels (snd (analyze_image_worker quiet_env ?s)) = 2"
    using T pq c by simp_all
  have 2: "processed_pixels (snd (analyze_image_worker (cancel_env 1) ?d))
      < total_pixels (snd (analyze_image_worker (cancel_env 1) ?d))"
    using D hd(3) cd by simp
  show ?thesis using h(1) pq c 1 cd 2 by blast
qed

section \<open>Discovery with threshold 0\<close>

lemma valid_color_distance:
  assumes "valid_color a" "valid_color b"
  shows "color_distance_sq a b \<le> 195075"
proof -
  obtain r1 g1 b1 where a: "a = (r1, g1, b1)" by (cases a) auto
  obtain r2 g2 b2 where b: "b = (r2, g2, b2)" by (cases b) auto
  have sq: "(x - y)\<^sup>2 \<le> 65025" if "0 \<le> x" "x \<le> 255" "0 \<le> y" "y \<le> 255" for x y :: int
  proof -
    have "\<bar>x - y\<bar> \<le> 255" using that by linarith
    then have "(x - y)\<^sup>2 \<le> 255\<^sup>2" by (metis abs_numeral abs_le_square_iff)
    then show ?thesis by simp
  qed
  have "(r1 - r2)\<^sup>2 \<le> 65025" "(g1 - g2)\<^sup>2 \<le> 65025" "(b1 - b2)\<^sup>2 \<le> 65025"
    using assms by (auto simp: valid_color_def a b intro: sq)
  then show ?thesis by (simp add: color_distance_sq_def a b)
qed

lemma first_pixel_append:
  "first_pixel (tr @ tr') = (case first_pixel tr of None \<Rightarrow> first_pixel tr' | Some xy \<Rightarrow> Some xy)"
  by (induction tr rule: first_pixel.induct) simp_all

lemma simplify_pixel_collapse:
  assumes "collapse_core orig G s" "xy \<in> G" "195075 \<le> A" "\<forall>xy \<in> G. valid_color (orig xy)"
  shows "collapse_core orig G (simplify_pixel A xy s)"
    and "painted s \<subseteq> painted (simplify_pixel A xy s)"
    and "xy \<in> painted (simplify_pixel A xy s)"
    and "saved_colors (simplify_pixel A xy s)
           = (if saved_colors s = [] then [orig xy] else saved_colors s)"
proof -
  define c where "c = px_get s xy"
  have v: "new_image s < length (heap s)" "\<And>z. z \<in> G \<Longrightarrow> valid_color (px_get s z)"
    using assms(1) unfolding collapse_core_def by blast+
  from assms(1) consider
      (empty) "saved_colors s = []" "px_get s = orig" "nearest_cache s = Map.empty"
    | (one) xy0 where "xy0 \<in> G" "saved_colors s = [orig xy0]"
        "\<And>c n. nearest_cache s c = Some n \<Longrightarrow> n = orig xy0"
    unfolding collapse_core_def by blast
  then have "collapse_core orig G (simplify_pixel A xy s)
    \<and> painted s \<subseteq> painted (simplify_pixel A xy s)
    \<and> xy \<in> painted (simplify_pixel A xy s)
    \<and> saved_colors (simplify_pixel A xy s)
           = (if saved_colors s = [] then [orig xy] else saved_colors s)"
  proof cases
    case empty
    have eq: "simplify_pixel A xy s = s\<lparr>saved_colors := [orig xy]\<rparr>"
      using empty by (simp add: simplify_pixel_def)
    have px: "px_get (s\<lparr>saved_colors := [orig xy]\<rparr>) = px_get s"
      by (simp add: px_get_def fun_eq_iff)
    have "collapse_core orig G (s\<lparr>saved_colors := [orig xy]\<rparr>)"
      unfolding collapse_core_def px using v assms(2) empty(3) by auto
    moreover have "painted s = {}" using empty(1) by (simp add: painted_def)
    moreover have "xy \<in> painted (s\<lparr>saved_colors := [orig xy]\<rparr>)"
      unfolding painted_def px using empty(2) by simp
    ultimately show ?thesis unfolding eq using empty(1) by simp
  next
    case one
    define c0 where "c0 = orig xy0"
    have vc0: "valid_color c0" using assms(4) one(1) by (simp add: c0_def)
    show ?thesis
    proof (cases "c = c0")
      case True
      then have eq: "simplify_pixel A xy s = s"
        using one(2) by (simp add: simplify_pixel_def c_def c0_def)
      have "xy \<in> painted s" using True one(2) by (simp add: painted_def c_def c0_def)
      then show ?thesis unfolding eq using assms(1) one(2) by simp
    next
      case False
      define s1 where "s1 = snd (lookup_nearest c [c0] s)"
      have n: "fst (lookup_nearest c [c0] s) = c0"
      proof (cases "nearest_cache s c")
        case None
        then show ?thesis by (simp add: lookup_nearest_def Let_def)
      next
        case (Some m)
        then show ?thesis using one(3) [OF Some] by (simp add: lookup_nearest_def c0_def)
      qed
      have cache1: "nearest_cache s1 c' = Some m \<Longrightarrow> m = c0" for c' m
        using one(3) [of c' m]
        by (cases "nearest_cache s c")
           (auto simp: s1_def lookup_nearest_def Let_def c0_def split: if_splits)
      have near: "\<not> A < real_of_int (color_distance_sq c0 c)"
      proof -
        have "color_distance_sq c0 c \<le> 195075"
          using valid_color_distance [OF vc0 v(2) [OF assms(2)]] by (simp add: c_def)
        then have "real_of_int (color_distance_sq c0 c) \<le> 195075" by linarith
        then show ?thesis using assms(3) by linarith
      qed
      have eq: "simplify_pixel A xy s = px_set s1 xy c0"
        using False one(2) n near
        by (simp add: simplify_pixel_def Let_def case_prod_beta c_def [symmetric]
            c0_def [symmetric] s1_def)
      have v1: "new_image s1 < length (heap s1)" using v(1) by (simp add: s1_def)
      have px: "px_get (px_set s1 xy c0) z = (if z = xy then c0 else px_get s z)" for z
        unfolding px_get_px_set [OF v1] by (simp add: s1_def)
      have sc: "saved_colors (px_set s1 xy c0) = [c0]"
        using one(2) by (simp add: s1_def c0_def)
      have "collapse_core orig G (px_set s1 xy c0)"
        unfolding collapse_core_def
      proof (intro conjI)
        show "new_image (px_set s1 xy c0) < length (heap (px_set s1 xy c0))" using v1 by simp
        show "\<forall>z \<in> G. valid_color (px_get (px_set s1 xy c0) z)"
          using v(2) vc0 by (simp add: px)
        have "\<forall>c n. nearest_cache (px_set s1 xy c0) c = Some n \<longrightarrow> n = orig xy0"
          using cache1 by (simp add: c0_def del: split_paired_All)
        then show "saved_colors (px_set s1 xy c0) = [] \<and> px_get (px_set s1 xy c0) = orig
            \<and> nearest_cache (px_set s1 xy c0) = Map.empty
          \<or> (\<exists>xy0 \<in> G. saved_colors (px_set s1 xy c0) = [orig xy0]
               \<and> (\<forall>c n. nearest_cache (px_set s1 xy c0) c = Some n \<longrightarrow> n = orig xy0))"
          using one(1) sc unfolding c0_def by blast
      qed
      moreover have "painted s \<subseteq> painted (px_set s1 xy c0)"
      proof
        fix z
        assume "z \<in> painted s"
        then have "px_get s z = c0" using one(2) by (simp add: painted_def c0_def)
        then have "px_get (px_set s1 xy c0) z = c0" by (simp add: px)
        then show "z \<in> painted (px_set s1 xy c0)" using sc by (simp add: painted_def)
      qed
      moreover have "xy \<in> painted (px_set s1 xy c0)"
        unfolding painted_def using sc by (simp add: px)
      ultimately show ?thesis unfolding eq using one(2) sc by (simp add: c0_def)
    qed
  qed
  then show "collapse_core orig G (simplify_pixel A xy s)"
    and "painted s \<subseteq> painted (simplify_pixel A xy s)"
    and "xy \<in> painted (simplify_pixel A xy s)"
    and "saved_colors (simplify_pixel A xy s)
           = (if saved_colors s = [] then [orig xy] else saved_colors s)"
    by blast+
qed

lemma collapse_core_frame [simp]:
  "collapse_core orig G (snd (is_set e s)) = collapse_core orig G s"
  "collapse_core orig G (snd (shuffle e cs s)) = collapse_core orig G s"
  "collapse_core orig G (count_pixel s) = collapse_core orig G s"
  "collapse_core orig G (s\<lparr>trace := tr\<rparr>) = collapse_core orig G s"
  "collapse_core orig G (s\<lparr>canceled := b\<rparr>) = collapse_core orig G s"
  by (simp_all add: collapse_core_def)

lemma painted_frame [simp]:
  "painted (snd (is_set e s)) = painted s"
  "painted (snd (shuffle e cs s)) = painted s"
  "painted (count_pixel s) = painted s"
  "painted (s\<lparr>trace := tr\<rparr>) = painted s"
  "painted (s\<lparr>canceled := b\<rparr>) = painted s"
  by (simp_all add: painted_def)

lemma reaches_collapse:
  assumes "reaches e (simplify_pixel A) G s t" "collapse_inv orig G s" "195075 \<le> A"
    "\<forall>xy \<in> G. valid_color (orig xy)"
  shows "collapse_inv orig G t \<and> painted s \<subseteq> painted t"
  using assms(1)
proof (induction rule: reaches.induct)
  case start
  show ?case using assms(2) by simp
next
  case (poll t)
  then show ?case
    by (cases "saved_colors t") (auto simp: collapse_inv_def first_pixel_append)
next
  case (cancel t)
  then show ?case
    by (cases "saved_colors t") (auto simp: collapse_inv_def first_pixel_append)
next
  case (shuffled t cs)
  then show ?case by (cases "saved_colors t") (auto simp: collapse_inv_def)
next
  case (pixel t xy)
  define p where "p = (snd (is_set e t))\<lparr>trace := trace (snd (is_set e t)) @ [Pixel xy]\<rparr>"
  define t' where "t' = simplify_pixel A xy p"
  note fr = step_frameD [OF step_frame_simplify_pixel]
  have inv: "collapse_inv orig G t" and sub: "painted s \<subseteq> painted t" using pixel.IH by blast+
  have core: "collapse_core orig G p" using inv by (simp add: collapse_inv_def p_def)
  note st = simplify_pixel_collapse [OF core pixel.hyps(5) assms(3,4), folded t'_def]
  have tr: "trace t' = trace t @ [Poll False, Pixel xy]"
    using pixel.hyps(4) by (simp add: t'_def fr p_def)
  have sc: "saved_colors t' = (if saved_colors t = [] then [orig xy] else saved_colors t)"
    using st(4) by (simp add: p_def)
  have "collapse_inv orig G (count_pixel t')"
  proof (cases "saved_colors t")
    case Nil
    then have "first_pixel (trace t) = None" using inv by (simp add: collapse_inv_def)
    then have "first_pixel (trace t') = Some xy" by (simp add: tr first_pixel_append)
    then show ?thesis using st(1) sc Nil pixel.hyps(5) by (simp add: collapse_inv_def)
  next
    case (Cons c0 cs)
    then obtain xy0 where "xy0 \<in> G" "first_pixel (trace t) = Some xy0" "c0 = orig xy0"
      using inv by (auto simp: collapse_inv_def)
    then have "xy0 \<in> G \<and> first_pixel (trace t') = Some xy0 \<and> c0 = orig xy0"
      by (simp add: tr first_pixel_append)
    then show ?thesis using st(1) sc Cons by (auto simp: collapse_inv_def)
  qed
  moreover have "painted t \<subseteq> painted t'" using st(2) by (simp add: p_def)
  ultimately show ?case using sub unfolding t'_def p_def by auto
qed

lemma simplify_pixels_paints:
  assumes "collapse_inv orig G s" "\<not> canceled s" "\<not> raised s" "set cs \<subseteq> G"
    "195075 \<le> A" "\<forall>xy \<in> G. valid_color (orig xy)"
    "\<not> canceled (simplify_pixels e A cs s)" "\<not> raised (simplify_pixels e A cs s)"
  shows "set cs \<subseteq> painted (simplify_pixels e A cs s)"
  using assms(1-4,7,8)
proof (induction cs arbitrary: s)
  case Nil
  show ?case by simp
next
  case (Cons xy rest)
  note fr = step_frameD [OF step_frame_simplify_pixel]
  define p where "p = (snd (is_set e s))\<lparr>trace := trace (snd (is_set e s)) @ [Pixel xy]\<rparr>"
  define s2 where "s2 = count_pixel (simplify_pixel A xy p)"
  have b: "\<not> is_set_at e (polls s)"
  proof
    assume "is_set_at e (polls s)"
    then have "canceled (simplify_pixels e A (xy # rest) s)" by (simp add: case_prod_beta)
    with Cons.prems(5) show False by blast
  qed
  have eq: "simplify_pixels e A (xy # rest) s
              = (if raised s2 then s2 else simplify_pixels e A rest s2)"
    using b by (simp add: case_prod_beta s2_def p_def Let_def)
  have nr: "\<not> raised s2"
  proof
    assume "raised s2"
    then have "raised (simplify_pixels e A (xy # rest) s)" unfolding eq by simp
    with Cons.prems(6) show False by blast
  qed
  have eq': "simplify_pixels e A (xy # rest) s = simplify_pixels e A rest s2" using eq nr by simp
  have xyG: "xy \<in> G" "set rest \<subseteq> G" using Cons.prems(4) by simp_all
  have r2: "reaches e (simplify_pixel A) G s s2"
    unfolding s2_def p_def
    by (rule reaches.pixel [OF reaches.start Cons.prems(2,3) b xyG(1)])
  have inv2: "collapse_inv orig G s2"
    using reaches_collapse [OF r2 Cons.prems(1) assms(5,6)] by blast
  have c2: "\<not> canceled s2" using Cons.prems(2) by (simp add: s2_def p_def fr)
  have core: "collapse_core orig G p" using Cons.prems(1) by (simp add: collapse_inv_def p_def)
  have in2: "xy \<in> painted s2"
    using simplify_pixel_collapse(3) [OF core xyG(1) assms(5,6)] by (simp add: s2_def)
  have c': "\<not> canceled (simplify_pixels e A rest s2)" "\<not> raised (simplify_pixels e A rest s2)"
    using Cons.prems(5,6) unfolding eq' by blast+
  have IH: "set rest \<subseteq> painted (simplify_pixels e A rest s2)"
    by (rule Cons.IH [OF inv2 c2 nr xyG(2) c'])
  have rt: "reaches e (simplify_pixel A) G s2 (simplify_pixels e A rest s2)"
    by (rule simplify_pixels_reaches [OF reaches.start c2 nr xyG(2)])
  have "painted s2 \<subseteq> painted (simplify_pixels e A rest s2)"
    using reaches_collapse [OF rt inv2 assms(5,6)] by blast
  then show ?case unfolding eq' using IH in2 by auto
qed

lemma simplify_tile_cols_paints:
  assumes "collapse_inv orig G s" "\<not> canceled s" "\<not> raised s" "permuting e"
    "\<forall>x0 \<in> set xs. set (tile_coords x0 (min (x0 + tile) w) y0 y1) \<subseteq> G"
    "195075 \<le> A" "\<forall>xy \<in> G. valid_color (orig xy)"
    "\<not> canceled (simplify_tile_cols e A w y0 y1 xs s)"
    "\<not> raised (simplify_tile_cols e A w y0 y1 xs s)"
  shows "\<forall>x0 \<in> set xs. set (tile_coords x0 (min (x0 + tile) w) y0 y1)
           \<subseteq> painted (simplify_tile_cols e A w y0 y1 xs s)"
  using assms(1-3,5,8,9)
proof (induction xs arbitrary: s)
  case Nil
  show ?case by simp
next
  case (Cons x0 rest)
  define s1 where "s1 = snd (is_set e s)"
  define tc where "tc = tile_coords x0 (min (x0 + tile) w) y0 y1"
  define cs where "cs = shuffle_at e (shuffles s1) tc"
  define s2 where "s2 = snd (shuffle e tc s1)"
  define s3 where "s3 = simplify_pixels e A cs s2"
  have b: "\<not> is_set_at e (polls s)"
  proof
    assume "is_set_at e (polls s)"
    then have "canceled (simplify_tile_cols e A w y0 y1 (x0 # rest) s)"
      by (simp add: case_prod_beta)
    with Cons.prems(5) show False by blast
  qed
  have eq: "simplify_tile_cols e A w y0 y1 (x0 # rest) s
              = (if canceled s3 \<or> raised s3 then s3 else simplify_tile_cols e A w y0 y1 rest s3)"
    using b by (simp add: case_prod_beta Let_def s3_def s2_def cs_def tc_def s1_def)
  have cl3: "\<not> canceled s3" "\<not> raised s3"
    using Cons.prems(5,6) unfolding eq by (auto split: if_splits)
  have eq': "simplify_tile_cols e A w y0 y1 (x0 # rest) s
               = simplify_tile_cols e A w y0 y1 rest s3"
    using eq cl3 by simp
  have tG: "set tc \<subseteq> G" and restG:
    "\<forall>x0 \<in> set rest. set (tile_coords x0 (min (x0 + tile) w) y0 y1) \<subseteq> G"
    using Cons.prems(4) by (simp_all add: tc_def)
  have csG: "set cs \<subseteq> G" "set cs = set tc"
    using tG by (simp_all add: cs_def permuting_set [OF assms(4)])
  have r1: "reaches e (simplify_pixel A) G s s1"
    unfolding s1_def by (rule reaches.poll [OF reaches.start Cons.prems(2,3) b])
  have c1: "\<not> canceled s1" "\<not> raised s1" using Cons.prems(2,3) by (simp_all add: s1_def)
  have r2: "reaches e (simplify_pixel A) G s s2"
    unfolding s2_def by (rule reaches.shuffled [OF r1 c1])
  have c2: "\<not> canceled s2" "\<not> raised s2" using c1 by (simp_all add: s2_def)
  have inv2: "collapse_inv orig G s2"
    using reaches_collapse [OF r2 Cons.prems(1) assms(6,7)] by blast
  have p3: "set cs \<subseteq> painted s3"
    unfolding s3_def
    by (rule simplify_pixels_paints [OF inv2 c2 csG(1) assms(6,7)])
       (use cl3 in \<open>simp_all add: s3_def\<close>)
  have r3: "reaches e (simplify_pixel A) G s2 s3"
    unfolding s3_def by (rule simplify_pixels_reaches [OF reaches.start c2 csG(1)])
  have inv3: "collapse_inv orig G s3"
    using reaches_collapse [OF r3 inv2 assms(6,7)] by blast
  have c': "\<not> canceled (simplify_tile_cols e A w y0 y1 rest s3)"
    "\<not> raised (simplify_tile_cols e A w y0 y1 rest s3)"
    using Cons.prems(5,6) unfolding eq' by blast+
  have IH: "\<forall>x0 \<in> set rest. set (tile_coords x0 (min (x0 + tile) w) y0 y1)
           \<subseteq> painted (simplify_tile_cols e A w y0 y1 rest s3)"
    by (rule Cons.IH [OF inv3 cl3 restG c'])
  have sh: "\<And>x0 k. x0 \<in> set rest
           \<Longrightarrow> set (shuffle_at e k (tile_coords x0 (min (x0 + tile) w) y0 y1)) \<subseteq> G"
    using restG by (simp add: permuting_set [OF assms(4)])
  have rt: "reaches e (simplify_pixel A) G s3 (simplify_tile_cols e A w y0 y1 rest s3)"
    by (rule simplify_tile_cols_reaches [OF reaches.start cl3 sh])
  have "painted s3 \<subseteq> painted (simplify_tile_cols e A w y0 y1 rest s3)"
    using reaches_collapse [OF rt inv3 assms(6,7)] by blast
  then have "set tc \<subseteq> painted (simplify_tile_cols e A w y0 y1 rest s3)"
    using p3 csG(2) by blast
  then show ?case unfolding eq' using IH by (simp add: tc_def)
qed

lemma simplify_tile_rows_paints:
  assumes "collapse_inv orig G s" "\<not> canceled s" "\<not> raised s" "permuting e"
    "\<forall>y0 \<in> set ys. \<forall>x0 \<in> set (range_step 0 w tile).
        set (tile_coords x0 (min (x0 + tile) w) y0 (min (y0 + tile) h)) \<subseteq> G"
    "195075 \<le> A" "\<forall>xy \<in> G. valid_color (orig xy)"
    "\<not> canceled (simplify_tile_rows e A w h ys s)"
    "\<not> raised (simplify_tile_rows e A w h ys s)"
  shows "\<forall>y0 \<in> set ys. \<forall>x0 \<in> set (range_step 0 w tile).
           set (tile_coords x0 (min (x0 + tile) w) y0 (min (y0 + tile) h))
           \<subseteq> painted (simplify_tile_rows e A w h ys s)"
  using assms(1-3,5,8,9)
proof (induction ys arbitrary: s)
  case Nil
  show ?case by simp
next
  case (Cons y0 rest)
  define s1 where "s1 = snd (is_set e s)"
  define s2 where "s2 = simplify_tile_cols e A w y0 (min (y0 + tile) h) (range_step 0 w tile) s1"
  have b: "\<not> is_set_at e (polls s)"
  proof
    assume "is_set_at e (polls s)"
    then have "canceled (simplify_tile_rows e A w h (y0 # rest) s)"
      by (simp add: case_prod_beta)
    with Cons.prems(5) show False by blast
  qed
  have eq: "simplify_tile_rows e A w h (y0 # rest) s
              = (if canceled s2 \<or> raised s2 then s2 else simplify_tile_rows e A w h rest s2)"
    using b by (simp add: case_prod_beta Let_def s2_def s1_def)
  have cl2: "\<not> canceled s2" "\<not> raised s2"
    using Cons.prems(5,6) unfolding eq by (auto split: if_splits)
  have eq': "simplify_tile_rows e A w h (y0 # rest) s = simplify_tile_rows e A w h rest s2"
    using eq cl2 by simp
  have rowG: "\<forall>x0 \<in> set (range_step 0 w tile).
        set (tile_coords x0 (min (x0 + tile) w) y0 (min (y0 + tile) h)) \<subseteq> G"
    and restG: "\<forall>y0 \<in> set rest. \<forall>x0 \<in> set (range_step 0 w tile).
        set (tile_coords x0 (min (x0 + tile) w) y0 (min (y0 + tile) h)) \<subseteq> G"
    using Cons.prems(4) by simp_all
  have r1: "reaches e (simplify_pixel A) G s s1"
    unfolding s1_def by (rule reaches.poll [OF reaches.start Cons.prems(2,3) b])
  have c1: "\<not> canceled s1" "\<not> raised s1" using Cons.prems(2,3) by (simp_all add: s1_def)
  have inv1: "collapse_inv orig G s1"
    using reaches_collapse [OF r1 Cons.prems(1) assms(6,7)] by blast
  have p2: "\<forall>x0 \<in> set (range_step 0 w tile).
        set (tile_coords x0 (min (x0 + tile) w) y0 (min (y0 + tile) h)) \<subseteq> painted s2"
    unfolding s2_def
    by (rule simplify_tile_cols_paints [OF inv1 c1 assms(4) rowG assms(6,7)])
       (use cl2 in \<open>simp_all add: s2_def\<close>)
  have sh: "\<And>x0 k. x0 \<in> set (range_step 0 w tile)
           \<Longrightarrow> set (shuffle_at e k (tile_coords x0 (min (x0 + tile) w) y0 (min (y0 + tile) h)))
               \<subseteq> G"
    using rowG by (simp add: permuting_set [OF assms(4)])
  have r2: "reaches e (simplify_pixel A) G s1 s2"
    unfolding s2_def by (rule simplify_tile_cols_reaches [OF reaches.start c1 sh])
  have inv2: "collapse_inv orig G s2"
    using reaches_collapse [OF r2 inv1 assms(6,7)] by blast
  have c': "\<not> canceled (simplify_tile_rows e A w h rest s2)"
    "\<not> raised (simplify_tile_rows e A w h rest s2)"
    using Cons.prems(5,6) unfolding eq' by blast+
  have IH: "\<forall>y0 \<in> set rest. \<forall>x0 \<in> set (range_step 0 w tile).
           set (tile_coords x0 (min (x0 + tile) w) y0 (min (y0 + tile) h))
           \<subseteq> painted (simplify_tile_rows e A w h rest s2)"
    by (rule Cons.IH [OF inv2 cl2 restG c'])
  have sh': "\<And>x0 y0 k. y0 \<in> set rest \<Longrightarrow> x0 \<in> set (range_step 0 w tile)
           \<Longrightarrow> set (shuffle_at e k (tile_coords x0 (min (x0 + tile) w) y0 (min (y0 + tile) h)))
               \<subseteq> G"
    using restG by (simp add: permuting_set [OF assms(4)])
  have rt: "reaches e (simplify_pixel A) G s2 (simplify_tile_rows e A w h rest s2)"
    by (rule simplify_tile_rows_reaches [OF reaches.start cl2 sh'])
  have "painted s2 \<subseteq> painted (simplify_tile_rows e A w h rest s2)"
    using reaches_collapse [OF rt inv2 assms(6,7)] by blast
  then show ?case unfolding eq' using IH p2 by auto
qed

lemma range_step_cover:
  "0 < t \<Longrightarrow> a \<le> x \<Longrightarrow> x < n \<Longrightarrow> \<exists>x0 \<in> set (range_step a n t). x0 \<le> x \<and> x < min (x0 + t) n"
proof (induction a n t rule: range_step.induct)
  case (1 start stop step)
  have lt: "start < stop" using "1.prems" by simp
  show ?case
  proof (cases "x < start + step")
    case True
    then show ?thesis using "1.prems" lt by (subst range_step.simps) simp
  next
    case False
    then have "\<exists>x0 \<in> set (range_step (start + step) stop step). x0 \<le> x \<and> x < min (x0 + step) stop"
      using 1 lt by simp
    then show ?thesis using "1.prems" lt by (subst range_step.simps) auto
  qed
qed

text \<open>
  C3. With similarity threshold 0 the allowed squared distance, computed in double
  precision as the square of \<open>sqrt(255\<^sup>2 * 3)\<close>, is exactly 195075, the squared distance of
  the two most distant colours, so the merge test accepts every pair of 8-bit colours.
  A completed discovery run over a non-empty grid of 8-bit colours then ends with a
  palette of exactly one entry, the original colour of the first pixel visited, and
  every pixel of the grid equals that entry.
\<close>

theorem C3_threshold_zero_collapses_to_first_colour:
  assumes "original_image s = Some a" "pal_choice s = ''Simplify Pallette''"
    "similarity_threshold s = 0" "img_size (heap s ! a) = (w, h)" "0 < w" "0 < h"
    "permuting e"
    "\<forall>x < w. \<forall>y < h. valid_color (pixels (heap s ! a) (x, y))"
    "fst (analyze_image_worker e s) = COMPLETED"
  shows "(\<exists>xy0. first_pixel (trace (snd (analyze_image_worker e s))) = Some xy0
            \<and> fst xy0 < w \<and> snd xy0 < h
            \<and> saved_colors (snd (analyze_image_worker e s)) = [pixels (heap s ! a) xy0]
            \<and> (\<forall>x < w. \<forall>y < h.
                  pixels (heap (snd (analyze_image_worker e s))
                            ! new_image (snd (analyze_image_worker e s))) (x, y)
                    = pixels (heap s ! a) xy0))
         \<and> allowed_sq_of 0 = 195075
         \<and> real_of_int (color_distance_sq (0, 0, 0) (255, 255, 255)) \<le> allowed_sq_of 0"
proof -
  define orig where "orig = pixels (heap s ! a)"
  define G where "G = grid w h"
  define t where "t = run_mode e a s"
  define s1 where "s1 = (worker_init a s)\<lparr>total_n := w * h, processed := 0\<rparr>"
  have eq: "t = simplify_tile_rows e (allowed_sq_of 0) w h (range_step 0 h tile) s1"
    unfolding t_def s1_def
    using run_mode_simplify(1) [OF assms(2,4), of e UNIV] by (simp add: assms(3))
  have cl: "\<not> canceled t" "\<not> raised t"
    using assms(9) by (auto simp: t_def worker_loaded(1) [OF assms(1)] split: if_splits)
  have S: "snd (analyze_image_worker e s) = publish (total_pixels t) (set_progress 100 t)"
    using cl by (simp add: t_def worker_loaded(2) [OF assms(1)])
  have valid: "\<forall>xy \<in> G. valid_color (orig xy)"
    using assms(8) by (auto simp: G_def grid_def orig_def)
  have px1: "px_get s1 = orig" by (simp add: px_get_def s1_def orig_def fun_eq_iff)
  have inv1: "collapse_inv orig G s1"
    unfolding collapse_inv_def collapse_core_def px1 using valid by (simp add: s1_def)
  have cl1: "\<not> canceled s1" "\<not> raised s1" by (simp_all add: s1_def)
  have A: "(195075::real) \<le> allowed_sq_of 0" by (simp add: allowed_sq_of_0)
  have tiles: "\<forall>y0 \<in> set (range_step 0 h tile). \<forall>x0 \<in> set (range_step 0 w tile).
        set (tile_coords x0 (min (x0 + tile) w) y0 (min (y0 + tile) h)) \<subseteq> G"
    using tile_coords_in_grid by (simp add: G_def)
  have cl': "\<not> canceled (simplify_tile_rows e (allowed_sq_of 0) w h (range_step 0 h tile) s1)"
    "\<not> raised (simplify_tile_rows e (allowed_sq_of 0) w h (range_step 0 h tile) s1)"
    using cl unfolding eq by blast+
  have cover: "\<forall>y0 \<in> set (range_step 0 h tile). \<forall>x0 \<in> set (range_step 0 w tile).
           set (tile_coords x0 (min (x0 + tile) w) y0 (min (y0 + tile) h)) \<subseteq> painted t"
    unfolding eq
    by (rule simplify_tile_rows_paints [OF inv1 cl1 assms(7) tiles A valid cl'])
  have sh: "\<And>x0 y0 k. y0 \<in> set (range_step 0 h tile) \<Longrightarrow> x0 \<in> set (range_step 0 w tile)
           \<Longrightarrow> set (shuffle_at e k (tile_coords x0 (min (x0 + tile) w) y0 (min (y0 + tile) h)))
               \<subseteq> G"
    using tiles by (simp add: permuting_set [OF assms(7)])
  have rt: "reaches e (simplify_pixel (allowed_sq_of 0)) G s1 t"
    unfolding eq by (rule simplify_tile_rows_reaches [OF reaches.start cl1 sh])
  have inv: "collapse_inv orig G t"
    using reaches_collapse [OF rt inv1 A valid] by blast
  have all: "(x, y) \<in> painted t" if xw: "x < w" and yh: "y < h" for x y
  proof -
    have t0: "0 < tile" by (simp add: tile_def)
    obtain x0 where x0: "x0 \<in> set (range_step 0 w tile)" "x0 \<le> x" "x < min (x0 + tile) w"
      using range_step_cover [OF t0 le0 xw] by blast
    obtain y0 where y0: "y0 \<in> set (range_step 0 h tile)" "y0 \<le> y" "y < min (y0 + tile) h"
      using range_step_cover [OF t0 le0 yh] by blast
    have "(x, y) \<in> set (tile_coords x0 (min (x0 + tile) w) y0 (min (y0 + tile) h))"
      using x0(2,3) y0(2,3) by (simp add: tile_coords_set)
    then show ?thesis using cover x0(1) y0(1) by blast
  qed
  have ne: "saved_colors t \<noteq> []"
    using all [OF assms(5,6)] by (simp add: painted_def)
  then obtain c0 cs where sc: "saved_colors t = c0 # cs" by (cases "saved_colors t") auto
  then obtain xy0 where xy0: "xy0 \<in> G" "first_pixel (trace t) = Some xy0" "c0 = orig xy0"
    using inv by (auto simp: collapse_inv_def)
  have one: "saved_colors t = [orig xy0]"
    using inv sc xy0(3) by (auto simp: collapse_inv_def collapse_core_def)
  have px: "pixels (heap t ! new_image t) (x, y) = orig xy0" if "x < w" "y < h" for x y
    using all [OF that] one by (simp add: painted_def px_get_def)
  have "first_pixel (trace (snd (analyze_image_worker e s))) = Some xy0
            \<and> fst xy0 < w \<and> snd xy0 < h
            \<and> saved_colors (snd (analyze_image_worker e s)) = [pixels (heap s ! a) xy0]
            \<and> (\<forall>x < w. \<forall>y < h.
                  pixels (heap (snd (analyze_image_worker e s))
                            ! new_image (snd (analyze_image_worker e s))) (x, y)
                    = pixels (heap s ! a) xy0)"
    unfolding S using xy0(1,2) one px by (auto simp: G_def grid_def orig_def)
  moreover have "real_of_int (color_distance_sq (0, 0, 0) (255, 255, 255)) \<le> allowed_sq_of 0"
    by (simp add: allowed_sq_of_0 color_distance_sq_def)
  ultimately show ?thesis using allowed_sq_of_0 by blast
qed

theorem C3_threshold_zero_collapses_to_first_colour_witness:
  "original_image (idle_state two_pixels ''Simplify Pallette'' Map.empty 0) = Some 0
   \<and> permuting quiet_env
   \<and> valid_color (pixels two_pixels (0, 0)) \<and> valid_color (pixels two_pixels (1, 0))
   \<and> fst (analyze_image_worker quiet_env
        (idle_state two_pixels ''Simplify Pallette'' Map.empty 0)) = COMPLETED
   \<and> saved_colors (snd (analyze_image_worker quiet_env
        (idle_state two_pixels ''Simplify Pallette'' Map.empty 0))) = [(0, 0, 0)]
   \<and> pixels two_pixels (1, 0) = (1, 1, 1)
   \<and> pixels (heap (snd (analyze_image_worker quiet_env
          (idle_state two_pixels ''Simplify Pallette'' Map.empty 0)))
        ! new_image (snd (analyze_image_worker quiet_env
          (idle_state two_pixels ''Simplify Pallette'' Map.empty 0)))) (1, 0) = (0, 0, 0)"
proof -
  let ?s = "idle_state two_pixels ''Simplify Pallette'' Map.empty 0"
  let ?S = "snd (analyze_image_worker quiet_env ?s)"
  have h: "original_image ?s = Some 0" "pal_choice ?s = ''Simplify Pallette''"
    "similarity_threshold ?s = 0" "img_size (heap ?s ! 0) = (2, 1)" "heap ?s ! 0 = two_pixels"
    by (simp_all add: idle_state_def two_pixels_def)
  have pq: "permuting quiet_env" by (simp add: permuting_def quiet_env_def)
  have v: "\<forall>x < 2. \<forall>y < 1. valid_color (pixels two_pixels (x, y))"
    by (simp add: two_pixels_def valid_color_def)
  have v': "\<forall>x < 2. \<forall>y < 1. valid_color (pixels (heap ?s ! 0) (x, y))"
    using v by (simp add: h(5))
  have c: "fst (analyze_image_worker quiet_env ?s) = COMPLETED"
    and sc: "saved_colors ?S = [(0, 0, 0)]"
    using scenario_C by (simp_all add: case_prod_beta)
  from C3_threshold_zero_collapses_to_first_colour [OF h(1-4) _ _ pq v' c]
  obtain xy0 where xy0: "saved_colors ?S = [pixels (heap ?s ! 0) xy0]"
    "\<forall>x < 2. \<forall>y < 1. pixels (heap ?S ! new_image ?S) (x, y) = pixels (heap ?s ! 0) xy0"
    by auto
  have "pixels (heap ?s ! 0) xy0 = (0, 0, 0)" using xy0(1) sc by simp
  then have "pixels (heap ?S ! new_image ?S) (1, 0) = (0, 0, 0)" using xy0(2) by simp
  moreover have "pixels two_pixels (1, 0) = (1, 1, 1)" by (simp add: two_pixels_def)
  moreover have "valid_color (pixels two_pixels (0, 0))" "valid_color (pixels two_pixels (1, 0))"
    by (simp_all add: two_pixels_def valid_color_def)
  ultimately show ?thesis using h(1) pq c sc by blast
qed

end
